theory Spec2Isabelle
  imports Complex_Main "HOL-Library.Multiset" "HOL-Library.Char_ord" "HOL-Library.List_Lexorder"
begin

section \<open>Strings and the tokenizer\<close>

text \<open>
  Python strings are modelled as \<open>string\<close> (lists of 8-bit characters), read as ASCII
  text: \<open>str.lower\<close> folds \<open>A..Z\<close> only, the regular expression's word characters are
  \<open>[A-Za-z0-9_]\<close>, and every other character separates words. No theorem below depends
  on how a text is cut into tokens.
\<close>

definition upper_letters :: string where
  "upper_letters = ''ABCDEFGHIJKLMNOPQRSTUVWXYZ''"

definition lower_letters :: string where
  "lower_letters = ''abcdefghijklmnopqrstuvwxyz''"

definition digits :: string where
  "digits = ''0123456789''"

definition lower_char :: "char \<Rightarrow> char" where
  "lower_char c = (case map_of (zip upper_letters lower_letters) c of None \<Rightarrow> c | Some d \<Rightarrow> d)"

definition lower :: "string \<Rightarrow> string" where
  "lower s = map lower_char s"

definition is_letter :: "char \<Rightarrow> bool" where
  "is_letter c = (c \<in> set (lower_letters @ upper_letters))"

definition is_digit :: "char \<Rightarrow> bool" where
  "is_digit c = (c \<in> set digits)"

definition is_alnum :: "char \<Rightarrow> bool" where
  "is_alnum c = (is_letter c \<or> is_digit c)"

definition is_word_char :: "char \<Rightarrow> bool" where
  "is_word_char c = (is_alnum c \<or> c = CHR ''_'')"

text \<open>The characters \<open>str.strip()\<close> removes: tab, LF, VT, FF, CR, FS..US and space.\<close>

definition is_space :: "char \<Rightarrow> bool" where
  "is_space c =
     (c \<in> set [CHR 0x09, CHR 0x0A, CHR 0x0B, CHR 0x0C, CHR 0x0D,
                CHR 0x1C, CHR 0x1D, CHR 0x1E, CHR 0x1F, CHR '' ''])"

text \<open>\<open>not s.strip()\<close>: the string is empty once its whitespace is stripped.\<close>

definition blank :: "string \<Rightarrow> bool" where
  "blank s = list_all is_space s"

text \<open>
  \<open>re.findall(r'\b[a-zA-Z][a-zA-Z0-9]*\b', text.lower())\<close>. A match starts at a word
  boundary on a letter, takes letters and digits greedily and must end at a word
  boundary; a shorter match ends inside the run, where there is no boundary. So the
  matches are the maximal runs of word characters that start with a letter and hold
  letters and digits only (a run with an underscore, or one that starts with a digit,
  yields nothing).
\<close>

fun word_runs :: "string \<Rightarrow> string \<Rightarrow> string list" where
  "word_runs cur [] = (if cur = [] then [] else [cur])"
| "word_runs cur (c # cs) =
     (if is_word_char c then word_runs (cur @ [c]) cs
      else (if cur = [] then [] else [cur]) @ word_runs [] cs)"

definition is_token :: "string \<Rightarrow> bool" where
  "is_token w = (case w of [] \<Rightarrow> False | c # cs \<Rightarrow> is_letter c \<and> list_all is_alnum cs)"

definition tokenize :: "string \<Rightarrow> string list" where
  "tokenize text = (if text = [] then [] else filter is_token (word_runs [] (lower text)))"

section \<open>Python list operations\<close>

datatype py_error = ValueError | ZeroDivisionError | IndexError

text \<open>\<open>xs[:n]\<close>: a negative \<open>n\<close> counts from the end of the list.\<close>

definition slice_to :: "int \<Rightarrow> 'a list \<Rightarrow> 'a list" where
  "slice_to n xs = (if 0 \<le> n then take (nat n) xs else take (length xs - nat (- n)) xs)"

text \<open>
  \<open>xs.sort(key=f, reverse=True)\<close>: a stable sort into descending key order; elements
  with equal keys keep their order. The result of a stable sort is unique, so insertion
  sort computes what Python's sort does.
\<close>

fun insort_desc :: "('a \<Rightarrow> 'k::linorder) \<Rightarrow> 'a \<Rightarrow> 'a list \<Rightarrow> 'a list" where
  "insort_desc f x [] = [x]"
| "insort_desc f x (y # ys) = (if f y \<le> f x then x # y # ys else y # insort_desc f x ys)"

definition sort_desc :: "('a \<Rightarrow> 'k::linorder) \<Rightarrow> 'a list \<Rightarrow> 'a list" where
  "sort_desc f xs = foldr (insort_desc f) xs []"

section \<open>InvertedIndex\<close>

record index_state =
  index :: "string \<rightharpoonup> string set"
  doc_freq :: "string \<rightharpoonup> int"
  total_docs :: nat
  doc_lengths :: "string \<rightharpoonup> nat"

definition index_init :: index_state where
  "index_init = \<lparr>index = Map.empty, doc_freq = Map.empty, total_docs = 0, doc_lengths = Map.empty\<rparr>"

text \<open>Reads of the two \<open>defaultdict\<close>s: a missing key reads as the empty set, or as 0.\<close>

definition postings :: "index_state \<Rightarrow> string \<Rightarrow> string set" where
  "postings S t = (case index S t of None \<Rightarrow> {} | Some ds \<Rightarrow> ds)"

definition df_get :: "index_state \<Rightarrow> string \<Rightarrow> int" where
  "df_get S t = (case doc_freq S t of None \<Rightarrow> 0 | Some n \<Rightarrow> n)"

text \<open>
  \<open>remove_document\<close>: the loop over \<open>self.index.items()\<close> treats every token on its own:
  where the posting set holds the id, the id is discarded and \<open>doc_freq\<close> decremented,
  and a posting set left empty is deleted together with its \<open>doc_freq\<close> entry.
\<close>

definition remove_document :: "string \<Rightarrow> index_state \<Rightarrow> index_state" where
  "remove_document doc_id S =
     (if doc_id \<notin> dom (doc_lengths S) then S
      else
        let index' = (\<lambda>t. case index S t of
                         None \<Rightarrow> None
                       | Some ds \<Rightarrow>
                           if doc_id \<in> ds
                           then (if ds - {doc_id} = {} then None else Some (ds - {doc_id}))
                           else Some ds);
            doc_freq' = (\<lambda>t. case index S t of
                         None \<Rightarrow> doc_freq S t
                       | Some ds \<Rightarrow>
                           if doc_id \<in> ds
                           then (if ds - {doc_id} = {} then None else Some (df_get S t - 1))
                           else doc_freq S t);
            doc_lengths' = (doc_lengths S)(doc_id := None)
        in \<lparr>index = index', doc_freq = doc_freq',
            total_docs = card (dom doc_lengths'), doc_lengths = doc_lengths'\<rparr>)"

text \<open>The tokens of a document: those of its text, then one per category.\<close>

definition doc_tokens :: "string \<Rightarrow> string list \<Rightarrow> string list" where
  "doc_tokens text categories =
     tokenize text @
     (if categories \<noteq> [] then map (\<lambda>cat. ''category:'' @ lower cat) categories else [])"

text \<open>One round of the loop over \<open>unique_tokens\<close>.\<close>

definition add_token :: "string \<Rightarrow> string \<Rightarrow> index_state \<Rightarrow> index_state" where
  "add_token doc_id token S =
     (if doc_id \<notin> postings S token
      then S\<lparr>index := (index S)(token \<mapsto> insert doc_id (postings S token)),
             doc_freq := (doc_freq S)(token \<mapsto> df_get S token + 1)\<rparr>
      else S)"

definition add_document :: "string \<Rightarrow> string \<Rightarrow> string list \<Rightarrow> index_state \<Rightarrow> index_state" where
  "add_document doc_id text categories S =
     (let tokens = doc_tokens text categories;
          S1 = (if doc_id \<in> dom (doc_lengths S) then remove_document doc_id S else S);
          unique_tokens = remdups tokens;
          S2 = S1\<lparr>doc_lengths := (doc_lengths S1)(doc_id \<mapsto> length tokens)\<rparr>;
          S3 = fold (add_token doc_id) unique_tokens S2
      in S3\<lparr>total_docs := card (dom (doc_lengths S3))\<rparr>)"

text \<open>
  The states of the index: the empty one and those \<open>add_document\<close> and
  \<open>remove_document\<close> lead to. The first argument records the documents the calls have
  left in the index, each with its token list.
\<close>

inductive reach :: "(string \<rightharpoonup> string list) \<Rightarrow> index_state \<Rightarrow> bool" where
  reach_init: "reach Map.empty index_init"
| reach_add: "reach D S \<Longrightarrow>
     reach (D(x \<mapsto> doc_tokens text categories)) (add_document x text categories S)"
| reach_remove: "reach D S \<Longrightarrow> reach (D(x := None)) (remove_document x S)"

text \<open>The index that holds exactly the documents \<open>D\<close>.\<close>

definition docs_with :: "(string \<rightharpoonup> string list) \<Rightarrow> string \<Rightarrow> string set" where
  "docs_with D t = {x. \<exists>toks. D x = Some toks \<and> t \<in> set toks}"

definition index_of :: "(string \<rightharpoonup> string list) \<Rightarrow> index_state" where
  "index_of D =
     \<lparr>index = (\<lambda>t. if docs_with D t = {} then None else Some (docs_with D t)),
      doc_freq = (\<lambda>t. if docs_with D t = {} then None else Some (int (card (docs_with D t)))),
      total_docs = card (dom D),
      doc_lengths = (\<lambda>x. map_option length (D x))\<rparr>"


subsection \<open>search\<close>

text \<open>
  The TF-IDF scores are floating-point numbers. The model takes the float type and its
  operations as a parameter \<open>fl\<close>; the scores are only added up and compared, so the
  float type is any linear order. \<open>real_ops\<close> reads them as real numbers.
\<close>

record 'f float_ops =
  f_of_int :: "int \<Rightarrow> 'f"
  f_add :: "'f \<Rightarrow> 'f \<Rightarrow> 'f"
  f_mul :: "'f \<Rightarrow> 'f \<Rightarrow> 'f"
  f_div :: "'f \<Rightarrow> 'f \<Rightarrow> 'f"
  f_log :: "'f \<Rightarrow> 'f"
  f_sqrt :: "'f \<Rightarrow> 'f"

definition real_ops :: "real float_ops" where
  "real_ops = \<lparr>f_of_int = of_int, f_add = (+), f_mul = (*), f_div = (/), f_log = ln, f_sqrt = sqrt\<rparr>"

text \<open>
  \<open>idf = math.log(self.total_docs / df) if df > 0 else 0\<close>. \<open>math.log\<close> raises
  \<open>ValueError\<close> on an argument that is not positive, which here is \<open>total_docs = 0\<close>.
  The read \<open>self.doc_freq[token]\<close> of a \<open>defaultdict\<close> would store 0 under a missing
  key; it is made for tokens of \<open>index\<close> only, and in the states of the index these have
  their \<open>doc_freq\<close> entry, so \<open>search\<close> is modelled as a function that leaves the state
  alone.
\<close>

definition idf_of :: "'f float_ops \<Rightarrow> index_state \<Rightarrow> string \<Rightarrow> py_error + 'f" where
  "idf_of fl S token =
     (let df = df_get S token in
      if 0 < df
      then (if total_docs S = 0 then Inl ValueError
            else Inr (f_log fl (f_div fl (f_of_int fl (int (total_docs S))) (f_of_int fl df))))
      else Inr (f_of_int fl 0))"

text \<open>
  \<open>doc_scores[doc_id] += v\<close> on a \<open>defaultdict(float)\<close>: a dictionary in insertion order,
  a missing key starting from \<open>0.0\<close>.
\<close>

fun bump_score :: "'f float_ops \<Rightarrow> string \<Rightarrow> 'f \<Rightarrow> (string \<times> 'f) list \<Rightarrow> (string \<times> 'f) list" where
  "bump_score fl d v [] = [(d, f_add fl (f_of_int fl 0) v)]"
| "bump_score fl d v ((d', s) # rest) =
     (if d = d' then (d', f_add fl s v) # rest else (d', s) # bump_score fl d v rest)"

text \<open>
  The inner loop, over the ids of one posting set:
  \<open>tf = 1.0 / math.sqrt(self.doc_lengths.get(doc_id, 1))\<close> divides by zero for a
  document of length 0.
\<close>

fun score_docs ::
  "'f float_ops \<Rightarrow> index_state \<Rightarrow> 'f \<Rightarrow> string list \<Rightarrow> (string \<times> 'f) list
     \<Rightarrow> py_error + (string \<times> 'f) list" where
  "score_docs fl S idf [] scores = Inr scores"
| "score_docs fl S idf (d # ds) scores =
     (let n = (case doc_lengths S d of None \<Rightarrow> 1 | Some n \<Rightarrow> n) in
      if n = 0 then Inl ZeroDivisionError
      else
        let tf = f_div fl (f_of_int fl 1) (f_sqrt fl (f_of_int fl (int n)))
        in score_docs fl S idf ds (bump_score fl d (f_mul fl tf idf) scores))"

text \<open>
  The outer loop, over the query's tokens. A Python \<open>set\<close> is iterated in an order the
  program does not control; \<open>iter\<close> is that order, taken as a function of the set's
  elements (in Python it also depends on the history of the set). No theorem depends on
  the order in which a set is listed.
\<close>

fun score_tokens ::
  "'f float_ops \<Rightarrow> (string set \<Rightarrow> string list) \<Rightarrow> index_state \<Rightarrow> string list
     \<Rightarrow> (string \<times> 'f) list \<Rightarrow> py_error + (string \<times> 'f) list" where
  "score_tokens fl iter S [] scores = Inr scores"
| "score_tokens fl iter S (t # ts) scores =
     (case index S t of
        None \<Rightarrow> score_tokens fl iter S ts scores
      | Some ds \<Rightarrow>
          (case idf_of fl S t of
             Inl e \<Rightarrow> Inl e
           | Inr idf \<Rightarrow>
               (case score_docs fl S idf (iter ds) scores of
                  Inl e \<Rightarrow> Inl e
                | Inr scores' \<Rightarrow> score_tokens fl iter S ts scores')))"

definition search ::
  "('f::linorder) float_ops \<Rightarrow> (string set \<Rightarrow> string list) \<Rightarrow> index_state \<Rightarrow> string \<Rightarrow> int
     \<Rightarrow> py_error + (string \<times> 'f) list" where
  "search fl iter S query limit =
     (if blank query then Inr []
      else
        let tokens = tokenize query in
        if tokens = [] then Inr []
        else
          (case score_tokens fl iter S tokens [] of
             Inl e \<Rightarrow> Inl e
           | Inr doc_scores \<Rightarrow> Inr (slice_to limit (sort_desc snd doc_scores))))"

text \<open>What the model asks of an iteration order: it lists the set, each element once.\<close>

definition iteration_order :: "(string set \<Rightarrow> string list) \<Rightarrow> bool" where
  "iteration_order iter = (\<forall>A. finite A \<longrightarrow> set (iter A) = A \<and> distinct (iter A))"

text \<open>One such order, for the examples.\<close>

definition sorted_iter :: "string set \<Rightarrow> string list" where
  "sorted_iter A = sorted_list_of_set A"

section \<open>AutocompleteTrie\<close>

text \<open>\<open>children\<close> is a dictionary in insertion order: the order \<open>_collect_words\<close> visits.\<close>

datatype trie_node = TrieNode (children: "(char \<times> trie_node) list") (is_word: bool) (frequency: int)

definition empty_node :: trie_node where
  "empty_node = TrieNode [] False 0"

fun insert_chars :: "string \<Rightarrow> int \<Rightarrow> trie_node \<Rightarrow> trie_node" where
  "insert_chars [] f (TrieNode cs w n) = TrieNode cs True (n + f)"
| "insert_chars (c # word) f (TrieNode cs w n) =
     (case map_of cs c of
        None \<Rightarrow> TrieNode (cs @ [(c, insert_chars word f empty_node)]) w n
      | Some _ \<Rightarrow>
          TrieNode (map (\<lambda>(k, child). if k = c then (k, insert_chars word f child) else (k, child)) cs) w n)"

definition trie_insert :: "string \<Rightarrow> int \<Rightarrow> trie_node \<Rightarrow> trie_node" where
  "trie_insert word f trie = insert_chars (lower word) f trie"

fun descend :: "string \<Rightarrow> trie_node \<Rightarrow> trie_node option" where
  "descend [] node = Some node"
| "descend (c # cs) node =
     (case map_of (children node) c of None \<Rightarrow> None | Some child \<Rightarrow> descend cs child)"

fun collect_words :: "trie_node \<Rightarrow> string \<Rightarrow> (string \<times> int) list" where
  "collect_words (TrieNode cs w n) prefix =
     (if w then [(prefix, n)] else []) @
     concat (map (\<lambda>(c, child). collect_words child (prefix @ [c])) cs)"

definition search_prefix :: "trie_node \<Rightarrow> string \<Rightarrow> int \<Rightarrow> string list" where
  "search_prefix trie prefix limit =
     (if prefix = [] then []
      else
        (case descend (lower prefix) trie of
           None \<Rightarrow> []
         | Some node \<Rightarrow>
             map fst (slice_to limit (sort_desc snd (collect_words node (lower prefix))))))"


text \<open>
  What the trie holds: the frequency stored for a word, if the word's path ends in a
  terminal node, and the tries that \<open>insert\<close> builds. In those, the keys of every
  \<open>children\<close> dictionary are distinct.
\<close>

definition word_freq :: "trie_node \<Rightarrow> string \<Rightarrow> int option" where
  "word_freq trie w =
     (case descend w trie of
        None \<Rightarrow> None
      | Some node \<Rightarrow> if is_word node then Some (frequency node) else None)"

fun wf_trie :: "trie_node \<Rightarrow> bool" where
  "wf_trie (TrieNode cs w n) = (distinct (map fst cs) \<and> (\<forall>child\<in>snd ` set cs. wf_trie child))"

inductive trie_reach :: "trie_node \<Rightarrow> bool" where
  trie_reach_empty: "trie_reach empty_node"
| trie_reach_insert: "trie_reach trie \<Longrightarrow> trie_reach (trie_insert word f trie)"

text \<open>The pairs \<open>search_prefix\<close> collects, in the order of the traversal.\<close>

definition traversal :: "trie_node \<Rightarrow> string \<Rightarrow> (string \<times> int) list" where
  "traversal trie p =
     (case descend p trie of None \<Rightarrow> [] | Some node \<Rightarrow> collect_words node p)"

section \<open>Products\<close>

text \<open>The \<open>Product\<close> model, without its opaque \<open>metadata\<close> dictionary, which nothing reads.\<close>

record product =
  product_id :: string
  title :: string
  description :: string
  categories :: "string list"
  price_cents :: int
  currency :: string
  images :: "string list"
  stock :: int

section \<open>RecommendationEngine\<close>

text \<open>
  A \<open>Counter\<close> is a dictionary in insertion order, here an association list;
  \<open>category_matrix\<close> maps a category to a Python \<open>set\<close> of product ids.
\<close>

record rec_engine =
  view_matrix :: "string \<rightharpoonup> (string \<times> int) list"
  category_matrix :: "string \<rightharpoonup> string set"
  price_ranges :: "string \<rightharpoonup> string list"

definition rec_init :: rec_engine where
  "rec_init = \<lparr>view_matrix = Map.empty, category_matrix = Map.empty, price_ranges = Map.empty\<rparr>"

text \<open>\<open>counter[k] += 1\<close>: a new key goes last, a key that is there keeps its place.\<close>

fun counter_incr :: "string \<Rightarrow> (string \<times> int) list \<Rightarrow> (string \<times> int) list" where
  "counter_incr k [] = [(k, 1)]"
| "counter_incr k ((k', n) # rest) =
     (if k = k' then (k', n + 1) # rest else (k', n) # counter_incr k rest)"

definition view_counter :: "rec_engine \<Rightarrow> string \<Rightarrow> (string \<times> int) list" where
  "view_counter E pid = (case view_matrix E pid of None \<Rightarrow> [] | Some c \<Rightarrow> c)"

definition record_view_step :: "string \<Rightarrow> string \<Rightarrow> rec_engine \<Rightarrow> rec_engine" where
  "record_view_step pid other_id E =
     (if other_id \<noteq> pid
      then E\<lparr>view_matrix := (view_matrix E)(pid \<mapsto> counter_incr other_id (view_counter E pid))\<rparr>
      else E)"

definition record_view :: "string \<Rightarrow> string list \<Rightarrow> rec_engine \<Rightarrow> rec_engine" where
  "record_view pid session_products E = fold (record_view_step pid) session_products E"

definition category_members :: "rec_engine \<Rightarrow> string \<Rightarrow> string set" where
  "category_members E category = (case category_matrix E category of None \<Rightarrow> {} | Some A \<Rightarrow> A)"

definition add_category :: "string \<Rightarrow> string \<Rightarrow> rec_engine \<Rightarrow> rec_engine" where
  "add_category pid category E =
     E\<lparr>category_matrix :=
         (category_matrix E)(lower category \<mapsto> insert pid (category_members E (lower category)))\<rparr>"

text \<open>
  \<open>price_dollars = price_cents / 100\<close> is compared with 50, 100, 200 and 500; the
  comparisons are written on the cents. (For an integer too large for a float the
  division raises \<open>OverflowError\<close>; the model leaves that case out, and no theorem reads
  \<open>price_ranges\<close>.)
\<close>

definition price_range :: "int \<Rightarrow> string" where
  "price_range cents =
     (if cents < 5000 then ''0-50''
      else if cents < 10000 then ''50-100''
      else if cents < 20000 then ''100-200''
      else if cents < 50000 then ''200-500''
      else ''500+'')"

definition add_product_metadata :: "string \<Rightarrow> string list \<Rightarrow> int \<Rightarrow> rec_engine \<Rightarrow> rec_engine" where
  "add_product_metadata pid cats cents E =
     (let E1 = fold (add_category pid) cats E;
          r = price_range cents
      in E1\<lparr>price_ranges :=
             (price_ranges E1)(r \<mapsto> (case price_ranges E1 r of None \<Rightarrow> [] | Some l \<Rightarrow> l) @ [pid])\<rparr>)"

text \<open>
  \<open>Counter.most_common(n)\<close>: the \<open>n\<close> entries with the highest counts, highest first,
  entries with equal counts in the order first encountered; nothing when \<open>n \<le> 0\<close>.
\<close>

definition most_common :: "int \<Rightarrow> (string \<times> int) list \<Rightarrow> (string \<times> int) list" where
  "most_common n c = (if n \<le> 0 then [] else take (nat n) (sort_desc snd c))"

text \<open>The loop over the product's categories, with its \<open>break\<close>.\<close>

fun category_fallback ::
  "(string set \<Rightarrow> string list) \<Rightarrow> rec_engine \<Rightarrow> string \<Rightarrow> int \<Rightarrow> string list
     \<Rightarrow> string list \<Rightarrow> string \<Rightarrow> string list \<times> string" where
  "category_fallback iter E pid limit [] recommendations reason = (recommendations, reason)"
| "category_fallback iter E pid limit (category # rest) recommendations reason =
     (let similar_products = filter (\<lambda>p. p \<noteq> pid) (iter (category_members E (lower category)));
          recommendations' = recommendations @ similar_products
      in if limit \<le> int (length recommendations')
         then (slice_to limit recommendations', ''similar products in '' @ category)
         else category_fallback iter E pid limit rest recommendations' reason)"

definition coviewed_part :: "rec_engine \<Rightarrow> string \<Rightarrow> int \<Rightarrow> string list \<times> string" where
  "coviewed_part E pid limit =
     (case view_matrix E pid of
        None \<Rightarrow> ([], [])
      | Some c \<Rightarrow>
          (let coviewed = most_common limit c
           in if coviewed \<noteq> [] then (map fst coviewed, ''frequently viewed together'')
              else ([], [])))"

text \<open>
  \<open>RecommendationEngine.get_recommendations\<close>; \<open>store\<close> is the global
  \<open>products_store\<close> it reads.
\<close>

definition get_recommendations ::
  "(string set \<Rightarrow> string list) \<Rightarrow> (string \<rightharpoonup> product) \<Rightarrow> rec_engine \<Rightarrow> string \<Rightarrow> int
     \<Rightarrow> string list \<times> string" where
  "get_recommendations iter store E pid limit =
     (let (recommendations, reason) = coviewed_part E pid limit
      in if int (length recommendations) < limit
         then (case store pid of
                 None \<Rightarrow> (recommendations, reason)
               | Some p \<Rightarrow> category_fallback iter E pid limit (categories p) recommendations reason)
         else (recommendations, reason))"

text \<open>The states of the engine: those \<open>record_view\<close> and \<open>add_product_metadata\<close> lead to.\<close>

inductive rec_reach :: "rec_engine \<Rightarrow> bool" where
  rec_reach_init: "rec_reach rec_init"
| rec_reach_view: "rec_reach E \<Longrightarrow> rec_reach (record_view pid session_products E)"
| rec_reach_metadata: "rec_reach E \<Longrightarrow> rec_reach (add_product_metadata pid cats cents E)"

section \<open>Relevance score\<close>

text \<open>
  The score is a float: a sum of small multiples of 3.0, 1.0, 2.0 and 0.5, which floats
  represent exactly, so it is modelled as the real number it denotes.
\<close>

definition calculate_relevance_score :: "product \<Rightarrow> string list \<Rightarrow> real" where
  "calculate_relevance_score p query_tokens =
     (let title_tokens = tokenize (title p);
          desc_tokens = tokenize (description p);
          title_matches = card (set query_tokens \<inter> set title_tokens);
          desc_matches = card (set query_tokens \<inter> set desc_tokens);
          cats = map lower (categories p);
          category_matches = card (set query_tokens \<inter> set cats)
      in 0 + real title_matches * 3 + real desc_matches * 1 + real category_matches * 2
           + (if 0 < stock p then 1 / 2 else 0))"

section \<open>The service\<close>

text \<open>
  The Bloom filter comes from a library outside the repository. The service takes its
  type \<open>'b\<close>, the filter \<open>BloomFilter(capacity=100000, error_rate=0.001)\<close> constructs and
  its two operations as a parameter; \<open>bf_add\<close> may raise (a filter at capacity does).
\<close>

record 'b filter_ops =
  bf_new :: 'b
  bf_add :: "'b \<Rightarrow> string \<Rightarrow> py_error + 'b"
  bf_contains :: "'b \<Rightarrow> string \<Rightarrow> bool"

definition no_false_negatives :: "'b filter_ops \<Rightarrow> bool" where
  "no_false_negatives bf =
     (\<forall>b x b'. bf_add bf b x = Inr b' \<longrightarrow>
        bf_contains bf b' x \<and> (\<forall>y. bf_contains bf b y \<longrightarrow> bf_contains bf b' y))"

text \<open>
  The global state, without the search analytics counters, which no operation here reads.
  The handlers are modelled as functions of their arguments; the bounds the framework
  checks before it calls them (\<open>limit\<close> from 1 to 100, or to 20) are not part of them.
  The detail of a status 500 is cut to its fixed prefix.
\<close>

record 'b engine =
  products_store :: "string \<rightharpoonup> product"
  inverted_index :: index_state
  autocomplete_trie :: trie_node
  bloom_filter :: 'b
  recommendation_engine :: rec_engine

datatype http_error = HTTPException (status_code: nat) (detail: string)

text \<open>
  \<open>index_product\<close>. The product is stored before the filter is asked; an exception from
  the filter ends the request with status 500 and leaves the store updated.
\<close>

definition index_product ::
  "'b filter_ops \<Rightarrow> product \<Rightarrow> 'b engine \<Rightarrow> 'b engine \<times> (http_error + string \<times> string)" where
  "index_product bf p s =
     (let pid = product_id p;
          s1 = s\<lparr>products_store := (products_store s)(pid \<mapsto> p)\<rparr>
      in case bf_add bf (bloom_filter s1) pid of
           Inl e \<Rightarrow> (s1, Inl (HTTPException 500 ''Indexing failed''))
         | Inr b \<Rightarrow>
             (let s2 = s1\<lparr>bloom_filter := b\<rparr>;
                  search_text = title p @ '' '' @ description p;
                  s3 = s2\<lparr>inverted_index :=
                           add_document pid search_text (categories p) (inverted_index s2)\<rparr>;
                  trie1 = fold (\<lambda>token t. if 2 < length token then trie_insert token 1 t else t)
                            (tokenize (title p)) (autocomplete_trie s3);
                  trie2 = fold (\<lambda>category t. trie_insert category 1 t) (categories p) trie1;
                  s4 = s3\<lparr>autocomplete_trie := trie2\<rparr>;
                  s5 = s4\<lparr>recommendation_engine :=
                           add_product_metadata pid (categories p) (price_cents p)
                             (recommendation_engine s4)\<rparr>
              in (s5, Inr (''indexed'', pid))))"

text \<open>
  \<open>record_product_view\<close>: \<open>if product_id and session_products\<close> skips an empty id and an
  empty session.
\<close>

definition record_product_view :: "string \<Rightarrow> string list \<Rightarrow> 'b engine \<Rightarrow> 'b engine" where
  "record_product_view pid session_products s =
     (if pid \<noteq> [] \<and> session_products \<noteq> []
      then s\<lparr>recommendation_engine := record_view pid session_products (recommendation_engine s)\<rparr>
      else s)"

record recommendation_result =
  product_ids :: "string list"
  reason :: string

text \<open>The handler of \<open>/api/search/recommendations/{product_id}\<close>.\<close>

definition get_recommendations_endpoint ::
  "'b filter_ops \<Rightarrow> (string set \<Rightarrow> string list) \<Rightarrow> 'b engine \<Rightarrow> string \<Rightarrow> int
     \<Rightarrow> http_error + recommendation_result" where
  "get_recommendations_endpoint bf iter s pid limit =
     (if \<not> bf_contains bf (bloom_filter s) pid
      then Inl (HTTPException 404 ''Product not found'')
      else
        (let (recommendations, why) =
               get_recommendations iter (products_store s) (recommendation_engine s) pid limit
         in Inr \<lparr>product_ids = recommendations, reason = why\<rparr>))"

text \<open>
  \<open>clear_all_data\<close>, the handler of \<open>DELETE /admin/clear\<close>: every structure is replaced
  by a new, empty one, the filter included.
\<close>

definition clear_all_data :: "'b filter_ops \<Rightarrow> 'b engine \<Rightarrow> 'b engine" where
  "clear_all_data bf s =
     \<lparr>products_store = Map.empty, inverted_index = index_init, autocomplete_trie = empty_node,
      bloom_filter = bf_new bf, recommendation_engine = rec_init\<rparr>"

text \<open>
  The requests that change the state, and a run of them. (A search changes the analytics
  counters only; the other requests read.)
\<close>

datatype request = IndexProduct product | RecordView string "string list" | ClearAllData

fun handle :: "'b filter_ops \<Rightarrow> request \<Rightarrow> 'b engine \<Rightarrow> 'b engine" where
  "handle bf (IndexProduct p) s = fst (index_product bf p s)"
| "handle bf (RecordView pid session_products) s = record_product_view pid session_products s"
| "handle bf ClearAllData s = clear_all_data bf s"

definition run :: "'b filter_ops \<Rightarrow> request list \<Rightarrow> 'b engine \<Rightarrow> 'b engine" where
  "run bf requests s = fold (handle bf) requests s"

subsection \<open>search_products\<close>

record search_result =
  r_product_id :: string
  r_title :: string
  r_score :: real
  r_price_cents :: int
  r_currency :: string
  r_stock :: int

text \<open>
  The loop over the index's results. The guards \<open>if category and ...\<close>,
  \<open>if min_price and ...\<close> and \<open>if max_price and ...\<close> test the argument's truth value
  first: \<open>None\<close>, the empty string and 0 switch the filter off.
\<close>

fun collect_results ::
  "(string \<rightharpoonup> product) \<Rightarrow> string \<Rightarrow> int \<Rightarrow> string option \<Rightarrow> int option \<Rightarrow> int option
     \<Rightarrow> (string \<times> 'f) list \<Rightarrow> search_result list \<Rightarrow> search_result list" where
  "collect_results store q limit category min_price max_price [] results = results"
| "collect_results store q limit category min_price max_price ((pid, tfidf) # rest) results =
     (case store pid of
        None \<Rightarrow> collect_results store q limit category min_price max_price rest results
      | Some p \<Rightarrow>
          if (case category of
                None \<Rightarrow> False
              | Some c \<Rightarrow> c \<noteq> [] \<and> lower c \<notin> set (map lower (categories p)))
          then collect_results store q limit category min_price max_price rest results
          else if (case min_price of None \<Rightarrow> False | Some m \<Rightarrow> m \<noteq> 0 \<and> price_cents p < m)
          then collect_results store q limit category min_price max_price rest results
          else if (case max_price of None \<Rightarrow> False | Some m \<Rightarrow> m \<noteq> 0 \<and> m < price_cents p)
          then collect_results store q limit category min_price max_price rest results
          else
            (let query_tokens = tokenize q;
                 relevance_score = calculate_relevance_score p query_tokens;
                 results' = results @
                   [\<lparr>r_product_id = product_id p, r_title = title p, r_score = relevance_score,
                     r_price_cents = price_cents p, r_currency = currency p, r_stock = stock p\<rparr>]
             in if limit \<le> int (length results') then results'
                else collect_results store q limit category min_price max_price rest results'))"

text \<open>The result list of \<open>search_products\<close>; an exception of the index becomes status 500.\<close>

definition search_results ::
  "('f::linorder) float_ops \<Rightarrow> (string set \<Rightarrow> string list) \<Rightarrow> 'b engine \<Rightarrow> string \<Rightarrow> int
     \<Rightarrow> string option \<Rightarrow> int option \<Rightarrow> int option \<Rightarrow> http_error + search_result list" where
  "search_results fl iter s q limit category min_price max_price =
     (if blank q then Inr []
      else
        (case search fl iter (inverted_index s) q (limit * 2) of
           Inl e \<Rightarrow> Inl (HTTPException 500 ''Search failed'')
         | Inr found \<Rightarrow>
             Inr (sort_desc r_score
                    (collect_results (products_store s) q limit category min_price max_price
                       found []))))"

record search_response =
  results :: "search_result list"
  total :: nat
  query :: string
  filters :: "(string option \<times> int option \<times> int option) option"

definition search_products ::
  "('f::linorder) float_ops \<Rightarrow> (string set \<Rightarrow> string list) \<Rightarrow> 'b engine \<Rightarrow> string \<Rightarrow> int
     \<Rightarrow> string option \<Rightarrow> int option \<Rightarrow> int option \<Rightarrow> http_error + search_response" where
  "search_products fl iter s q limit category min_price max_price =
     (case search_results fl iter s q limit category min_price max_price of
        Inl e \<Rightarrow> Inl e
      | Inr rs \<Rightarrow>
          Inr \<lparr>results = rs, total = length rs, query = q,
               filters = (if blank q then None else Some (category, min_price, max_price))\<rparr>)"

section \<open>Notions used in the proofs, and example data\<close>

text \<open>The ids one query token contributes to the scores.\<close>

definition hits :: "(string set \<Rightarrow> string list) \<Rightarrow> index_state \<Rightarrow> string \<Rightarrow> string set" where
  "hits iter S t = (case index S t of None \<Rightarrow> {} | Some ds \<Rightarrow> set (iter ds))"

text \<open>The states in which \<open>search\<close> raises no exception.\<close>

definition search_safe :: "(string set \<Rightarrow> string list) \<Rightarrow> index_state \<Rightarrow> bool" where
  "search_safe iter S = (\<forall>t ds. index S t = Some ds \<longrightarrow>
      total_docs S \<noteq> 0 \<and> (\<forall>d\<in>set (iter ds). doc_lengths S d \<noteq> Some 0))"

text \<open>A filter for the examples: one hash function, the length of the id modulo 8.\<close>

definition toy_filter :: "nat set filter_ops" where
  "toy_filter =
     \<lparr>bf_new = {},
      bf_add = (\<lambda>b x. Inr (insert (length x mod 8) b)),
      bf_contains = (\<lambda>b x. length x mod 8 \<in> b)\<rparr>"

definition engine_init :: "nat set engine" where
  "engine_init =
     \<lparr>products_store = Map.empty, inverted_index = index_init, autocomplete_trie = empty_node,
      bloom_filter = {}, recommendation_engine = rec_init\<rparr>"

text \<open>A shop of two products, and its index.\<close>

definition red_shoes :: product where
  "red_shoes =
     \<lparr>product_id = ''P1'', title = ''Red Shoes'', description = ''sturdy'', categories = [],
      price_cents = 4999, currency = ''USD'', images = [], stock = 0\<rparr>"

definition blue_shoes :: product where
  "blue_shoes =
     \<lparr>product_id = ''P2'', title = ''Blue Shoes'', description = ''light'', categories = [],
      price_cents = 8999, currency = ''USD'', images = [], stock = 1\<rparr>"

definition shop :: "nat set engine" where
  "shop = fst (index_product toy_filter blue_shoes (fst (index_product toy_filter red_shoes engine_init)))"

definition two_docs :: "string \<rightharpoonup> string list" where
  "two_docs = [''P1'' \<mapsto> doc_tokens ''Red Shoes sturdy'' [], ''P2'' \<mapsto> doc_tokens ''Blue Shoes light'' []]"

definition two_docs_index :: index_state where
  "two_docs_index =
     add_document ''P2'' ''Blue Shoes light'' []
       (add_document ''P1'' ''Red Shoes sturdy'' [] index_init)"

text \<open>What the shop answers to the query \<open>shoes\<close>.\<close>

definition shoes_results :: "search_result list" where
  "shoes_results =
     [\<lparr>r_product_id = ''P2'', r_title = ''Blue Shoes'', r_score = 7 / 2, r_price_cents = 8999,
        r_currency = ''USD'', r_stock = 1\<rparr>,
      \<lparr>r_product_id = ''P1'', r_title = ''Red Shoes'', r_score = 3, r_price_cents = 4999,
        r_currency = ''USD'', r_stock = 0\<rparr>]"

text \<open>The trie after \<open>camera\<close> is inserted ten times and \<open>camisole\<close> once.\<close>

definition cam_trie :: trie_node where
  "cam_trie = trie_insert ''camisole'' 1 ((trie_insert ''camera'' 1 ^^ 10) empty_node)"

text \<open>Two words of equal frequency, the lexically greater one inserted first.\<close>

definition tie_trie :: trie_node where
  "tie_trie = trie_insert ''ca'' 1 (trie_insert ''cb'' 1 empty_node)"

text \<open>
  A shop of two books in the category \<open>Books\<close>, without any view recorded, and the
  same shop after a session that viewed \<open>B\<close> with \<open>A\<close>.
\<close>

definition book_a :: product where
  "book_a =
     \<lparr>product_id = ''A'', title = ''Dune'', description = ''novel'', categories = [''Books''],
      price_cents = 1000, currency = ''USD'', images = [], stock = 1\<rparr>"

definition book_b :: product where
  "book_b =
     \<lparr>product_id = ''B'', title = ''Emma'', description = ''novel'', categories = [''Books''],
      price_cents = 1000, currency = ''USD'', images = [], stock = 1\<rparr>"

definition books :: "nat set engine" where
  "books = fst (index_product toy_filter book_b (fst (index_product toy_filter book_a engine_init)))"

definition books_viewed :: "nat set engine" where
  "books_viewed = record_product_view ''A'' [''B''] books"

section \<open>The index holds exactly the documents added and not removed\<close>

lemma docs_with_remove: "docs_with (D(x := None)) t = docs_with D t - {x}"
  by (auto simp: docs_with_def)

lemma docs_with_update:
  "docs_with (D(x \<mapsto> toks)) t = (if t \<in> set toks then insert x (docs_with D t) else docs_with D t - {x})"
  by (auto simp: docs_with_def)

lemma docs_with_subset: "docs_with D t \<subseteq> dom D"
  by (auto simp: docs_with_def)

lemma finite_docs_with: "finite (dom D) \<Longrightarrow> finite (docs_with D t)"
  by (rule finite_subset[OF docs_with_subset])

lemma docs_with_notin: "x \<notin> dom D \<Longrightarrow> x \<notin> docs_with D t"
  using docs_with_subset by blast

lemma dom_lengths: "dom (\<lambda>x. map_option length (D x)) = dom D"
  by (auto simp: dom_def)

lemma index_of_fields:
  "index (index_of D) t = (if docs_with D t = {} then None else Some (docs_with D t))"
  "doc_freq (index_of D) t = (if docs_with D t = {} then None else Some (int (card (docs_with D t))))"
  "total_docs (index_of D) = card (dom D)"
  "doc_lengths (index_of D) x = map_option length (D x)"
  "dom (doc_lengths (index_of D)) = dom D"
  by (auto simp: index_of_def dom_def)

lemma postings_index_of: "postings (index_of D) t = docs_with D t"
  by (simp add: postings_def index_of_def)

lemma df_get_index_of: "df_get (index_of D) t = int (card (docs_with D t))"
  by (simp add: df_get_def index_of_def)

lemma card_docs_remove:
  assumes "finite (dom D)" "x \<in> docs_with D t"
  shows "int (card (docs_with D t)) - 1 = int (card (docs_with D t - {x}))"
  using card_Suc_Diff1[OF finite_docs_with[OF assms(1)] assms(2)] by linarith

lemma remove_index_of:
  assumes "finite (dom D)"
  shows "remove_document x (index_of D) = index_of (D(x := None))"
proof (cases "x \<in> dom D")
  case False
  then have "D(x := None) = D" by (auto simp: fun_eq_iff)
  with False show ?thesis
    by (simp add: remove_document_def index_of_def dom_lengths)
next
  case True
  let ?S = "index_of D" and ?S' = "index_of (D(x := None))"
  have in_dom: "x \<in> dom (doc_lengths ?S)" using True by (simp add: index_of_def dom_lengths)
  have i: "index (remove_document x ?S) = index ?S'"
  proof
    fix t show "index (remove_document x ?S) t = index ?S' t"
      using in_dom by (simp add: remove_document_def Let_def index_of_fields docs_with_remove) blast
  qed
  have f: "doc_freq (remove_document x ?S) = doc_freq ?S'"
  proof
    fix t
    have rm: "doc_freq (remove_document x ?S) t =
        (if docs_with D t = {} then None
         else if x \<in> docs_with D t
           then (if docs_with D t - {x} = {} then None else Some (int (card (docs_with D t)) - 1))
           else Some (int (card (docs_with D t))))"
      using in_dom by (simp add: remove_document_def Let_def df_get_index_of index_of_fields)
    have new: "doc_freq ?S' t =
        (if docs_with D t - {x} = {} then None else Some (int (card (docs_with D t - {x}))))"
      by (simp add: index_of_def docs_with_remove)
    show "doc_freq (remove_document x ?S) t = doc_freq ?S' t"
    proof (cases "x \<in> docs_with D t")
      case True
      then have ne: "docs_with D t \<noteq> {}" by blast
      have c: "int (card (docs_with D t - {x})) = int (card (docs_with D t)) - 1"
        using card_docs_remove[OF assms True] by (rule sym)
      show ?thesis unfolding rm new by (simp only: ne True c if_True if_False)
    next
      case False
      then have "docs_with D t - {x} = docs_with D t" by blast
      with False show ?thesis unfolding rm new by (simp only: if_False if_True split: if_splits)
    qed
  qed
  have l0: "doc_lengths (remove_document x ?S) = (doc_lengths ?S)(x := None)"
    using in_dom by (simp add: remove_document_def Let_def)
  have l: "doc_lengths (remove_document x ?S) = doc_lengths ?S'"
  proof
    fix y show "doc_lengths (remove_document x ?S) y = doc_lengths ?S' y"
      unfolding l0 by (simp add: index_of_fields)
  qed
  have n: "total_docs (remove_document x ?S) = total_docs ?S'"
  proof -
    have "total_docs (remove_document x ?S) = card (dom (doc_lengths (remove_document x ?S)))"
      using in_dom by (simp add: remove_document_def Let_def)
    also have "\<dots> = card (dom (doc_lengths ?S'))" by (simp only: l)
    also have "\<dots> = total_docs ?S'" by (simp only: index_of_fields)
    finally show ?thesis .
  qed
  show ?thesis by (rule index_state.equality) (simp_all add: i f l n)
qed

lemma postings_add_token:
  "postings (add_token x a S) t = (if t = a then insert x (postings S a) else postings S t)"
  by (auto simp: add_token_def postings_def)

lemma fold_add_token_index:
  "index (fold (add_token x) ts S) t =
     (if t \<in> set ts then Some (insert x (postings S t)) else index S t)"
proof (induction ts arbitrary: S)
  case Nil
  show ?case by simp
next
  case (Cons a ts)
  show ?case
    by (simp add: Cons.IH postings_add_token) (auto simp: add_token_def postings_def split: option.splits)
qed

lemma fold_add_token_doc_freq:
  "doc_freq (fold (add_token x) ts S) t =
     (if t \<in> set ts \<and> x \<notin> postings S t then Some (df_get S t + 1) else doc_freq S t)"
proof (induction ts arbitrary: S)
  case Nil
  show ?case by simp
next
  case (Cons a ts)
  have df: "df_get (add_token x a S) t = (if t = a \<and> x \<notin> postings S a then df_get S a + 1 else df_get S t)"
    by (auto simp: add_token_def df_get_def)
  have d: "doc_freq (add_token x a S) t = (if t = a \<and> x \<notin> postings S a then Some (df_get S a + 1) else doc_freq S t)"
    by (auto simp: add_token_def)
  show ?case
    by (auto simp: Cons.IH postings_add_token df d)
qed

lemma fold_add_token_rest:
  "doc_lengths (fold (add_token x) ts S) = doc_lengths S"
  "total_docs (fold (add_token x) ts S) = total_docs S"
  by (induction ts arbitrary: S) (simp_all add: add_token_def)

lemma add_index_of:
  assumes "finite (dom D)"
  shows "add_document x text cats (index_of D) = index_of (D(x \<mapsto> doc_tokens text cats))"
proof -
  let ?toks = "doc_tokens text cats"
  let ?D1 = "D(x := None)"
  let ?D' = "D(x \<mapsto> ?toks)"
  let ?S2 = "(index_of ?D1)\<lparr>doc_lengths := (doc_lengths (index_of ?D1))(x \<mapsto> length ?toks)\<rparr>"
  let ?S3 = "fold (add_token x) (remdups ?toks) ?S2"
  have S1: "(if x \<in> dom (doc_lengths (index_of D)) then remove_document x (index_of D)
             else index_of D) = index_of ?D1"
  proof (cases "x \<in> dom D")
    case True
    then show ?thesis by (simp add: index_of_fields remove_index_of[OF assms])
  next
    case False
    then have "?D1 = D" by (auto simp: fun_eq_iff)
    with False show ?thesis by (simp add: index_of_fields)
  qed
  have fin1: "\<And>t. finite (docs_with ?D1 t)"
    by (rule finite_docs_with) (simp add: assms)
  have x1: "\<And>t. x \<notin> docs_with ?D1 t" by (simp add: docs_with_remove)
  have unfold: "add_document x text cats (index_of D) = ?S3\<lparr>total_docs := card (dom (doc_lengths ?S3))\<rparr>"
    unfolding add_document_def Let_def S1 ..
  have p2: "\<And>t. postings ?S2 t = docs_with ?D1 t"
    by (simp add: postings_def index_of_fields)
  have d2: "\<And>t. df_get ?S2 t = int (card (docs_with ?D1 t))"
    by (simp add: df_get_def index_of_fields)
  have dw: "\<And>t. docs_with ?D' t = (if t \<in> set ?toks then insert x (docs_with ?D1 t) else docs_with ?D1 t)"
    by (auto simp: docs_with_update docs_with_remove)
  have i: "index ?S3 = index (index_of ?D')"
  proof
    fix t show "index ?S3 t = index (index_of ?D') t"
      by (simp add: fold_add_token_index p2 index_of_fields dw)
  qed
  have f: "doc_freq ?S3 = doc_freq (index_of ?D')"
  proof
    fix t show "doc_freq ?S3 t = doc_freq (index_of ?D') t"
      using fin1[of t] x1[of t]
      by (simp add: fold_add_token_doc_freq p2 d2 index_of_fields dw)
  qed
  have l: "doc_lengths ?S3 = doc_lengths (index_of ?D')"
  proof
    fix y show "doc_lengths ?S3 y = doc_lengths (index_of ?D') y"
      by (simp add: fold_add_token_rest index_of_fields)
  qed
  have n: "card (dom (doc_lengths ?S3)) = total_docs (index_of ?D')"
    unfolding l by (simp add: index_of_fields(3) index_of_fields(5))
  show ?thesis unfolding unfold
    by (rule index_state.equality) (simp_all add: i f l index_of_fields(3,5))
qed

lemma reach_index_of: "reach D S \<Longrightarrow> finite (dom D) \<and> S = index_of D"
proof (induction rule: reach.induct)
  case reach_init
  show ?case by (simp add: index_init_def index_of_def docs_with_def)
next
  case (reach_add D S x body categories)
  then have fin: "finite (dom D)" and S: "S = index_of D" by simp_all
  have "finite (dom (D(x \<mapsto> doc_tokens body categories)))" using fin by simp
  moreover have "add_document x body categories S = index_of (D(x \<mapsto> doc_tokens body categories))"
    unfolding S by (rule add_index_of[OF fin])
  ultimately show ?case by (rule conjI)
next
  case (reach_remove D S x)
  then have fin: "finite (dom D)" and S: "S = index_of D" by simp_all
  have "finite (dom (D(x := None)))" using fin by simp
  moreover have "remove_document x S = index_of (D(x := None))"
    unfolding S by (rule remove_index_of[OF fin])
  ultimately show ?case by (rule conjI)
qed


lemma docs_with_empty: "docs_with Map.empty t = {}"
  by (simp add: docs_with_def)

lemma doc_tokens_example:
  "doc_tokens ''Red Running Shoes'' [''Shoes''] = [''red'', ''running'', ''shoes'', ''category:shoes'']"
  by code_simp

text \<open>
  Claim C1. In every state of the index that \<open>add_document\<close> and \<open>remove_document\<close>
  reach, the posting set of every token present in the index is not empty, and its
  cardinality is the token's \<open>doc_freq\<close>. No token has an empty posting set.
\<close>

theorem C1_postings_match_doc_freq:
  assumes "reach D S" and "index S t = Some ds"
  shows "ds \<noteq> {} \<and> finite ds \<and> doc_freq S t = Some (int (card ds))"
proof -
  from assms(1) have fin: "finite (dom D)" and S: "S = index_of D"
    using reach_index_of by blast+
  from assms(2) have ne: "docs_with D t \<noteq> {}" and ds: "ds = docs_with D t"
    unfolding S by (auto simp: index_of_fields split: if_splits)
  show ?thesis
    unfolding S ds using ne finite_docs_with[OF fin, of t] by (simp add: index_of_fields)
qed

theorem C1_postings_match_doc_freq_witness:
  "reach (Map.empty(''P1'' \<mapsto> doc_tokens ''Red Running Shoes'' [''Shoes'']))
     (add_document ''P1'' ''Red Running Shoes'' [''Shoes''] index_init)
   \<and> index (add_document ''P1'' ''Red Running Shoes'' [''Shoes''] index_init) ''red'' = Some {''P1''}
   \<and> {''P1''} \<noteq> ({} :: string set) \<and> finite {''P1''}
   \<and> doc_freq (add_document ''P1'' ''Red Running Shoes'' [''Shoes''] index_init) ''red''
       = Some (int (card {''P1''}))"
proof -
  let ?D = "Map.empty(''P1'' \<mapsto> doc_tokens ''Red Running Shoes'' [''Shoes''])"
  let ?S = "add_document ''P1'' ''Red Running Shoes'' [''Shoes''] index_init"
  have r: "reach ?D ?S" by (rule reach_add[OF reach_init])
  then have S: "?S = index_of ?D" using reach_index_of by blast
  have i: "index ?S ''red'' = Some {''P1''}"
    unfolding S by (simp add: index_of_fields docs_with_update docs_with_empty doc_tokens_example)
  from C1_postings_match_doc_freq[OF r i] r i show ?thesis by simp
qed

text \<open>
  Claim C2. In a state of the index that does not hold the id \<open>x\<close>,
  \<open>add_document x\<close> followed by \<open>remove_document x\<close> gives the state back: the
  same postings, \<open>doc_freq\<close>, \<open>doc_lengths\<close> and \<open>total_docs\<close>.
\<close>

theorem C2_add_then_remove:
  assumes "reach D S" and "x \<notin> dom (doc_lengths S)"
  shows "remove_document x (add_document x body cats S) = S"
proof -
  from assms(1) have fin: "finite (dom D)" and S: "S = index_of D"
    using reach_index_of by blast+
  from assms(2) have x: "x \<notin> dom D" unfolding S by (simp add: index_of_fields)
  then have restore: "(D(x \<mapsto> doc_tokens body cats))(x := None) = D"
    by (auto simp: fun_eq_iff)
  have "remove_document x (add_document x body cats S)
      = remove_document x (index_of (D(x \<mapsto> doc_tokens body cats)))"
    unfolding S by (simp only: add_index_of[OF fin])
  also have "\<dots> = index_of ((D(x \<mapsto> doc_tokens body cats))(x := None))"
    by (rule remove_index_of) (simp add: fin)
  also have "\<dots> = S" unfolding restore S ..
  finally show ?thesis .
qed

theorem C2_add_then_remove_witness:
  "reach (Map.empty(''P1'' \<mapsto> doc_tokens ''Red Running Shoes'' [''Shoes'']))
     (add_document ''P1'' ''Red Running Shoes'' [''Shoes''] index_init)
   \<and> ''P2'' \<notin> dom (doc_lengths (add_document ''P1'' ''Red Running Shoes'' [''Shoes''] index_init))
   \<and> remove_document ''P2''
        (add_document ''P2'' ''Blue Hiking Boots'' [''Shoes'']
          (add_document ''P1'' ''Red Running Shoes'' [''Shoes''] index_init))
      = add_document ''P1'' ''Red Running Shoes'' [''Shoes''] index_init"
proof -
  let ?D = "Map.empty(''P1'' \<mapsto> doc_tokens ''Red Running Shoes'' [''Shoes''])"
  let ?S = "add_document ''P1'' ''Red Running Shoes'' [''Shoes''] index_init"
  have r: "reach ?D ?S" by (rule reach_add[OF reach_init])
  then have S: "?S = index_of ?D" using reach_index_of by blast
  have x: "''P2'' \<notin> dom (doc_lengths ?S)"
    unfolding S by (simp add: index_of_fields)
  from C2_add_then_remove[OF r x] r x show ?thesis by simp
qed

section \<open>Stable descending sort\<close>

lemma mset_insort_desc: "mset (insort_desc f x xs) = add_mset x (mset xs)"
  by (induction xs) auto

lemma mset_sort_desc: "mset (sort_desc f xs) = mset xs"
  by (induction xs) (auto simp: sort_desc_def mset_insort_desc)

lemma set_sort_desc: "set (sort_desc f xs) = set xs"
  using mset_sort_desc[of f xs] by (metis set_mset_mset)

lemma length_sort_desc: "length (sort_desc f xs) = length xs"
  using mset_sort_desc[of f xs] by (metis size_mset)

lemma set_insort_desc: "set (insort_desc f x xs) = insert x (set xs)"
  using mset_insort_desc[of f x xs] by (metis set_mset_mset set_mset_add_mset_insert)

lemma sorted_insort_desc:
  "sorted_wrt (\<lambda>a b. f b \<le> f a) xs \<Longrightarrow> sorted_wrt (\<lambda>a b. f b \<le> f a) (insort_desc f x xs)"
  by (induction xs) (auto simp: set_insort_desc)

lemma sorted_sort_desc: "sorted_wrt (\<lambda>a b. f b \<le> f a) (sort_desc f xs)"
  by (induction xs) (auto simp: sort_desc_def sorted_insort_desc)

lemma filter_insort_desc:
  "sorted_wrt (\<lambda>a b. f b \<le> f a) xs \<Longrightarrow>
   filter (\<lambda>y. f y = k) (insort_desc f x xs) =
     (if f x = k then x # filter (\<lambda>y. f y = k) xs else filter (\<lambda>y. f y = k) xs)"
proof (induction xs)
  case Nil
  show ?case by simp
next
  case (Cons y ys)
  then have le: "\<forall>z\<in>set ys. f z \<le> f y" and srt: "sorted_wrt (\<lambda>a b. f b \<le> f a) ys" by auto
  show ?case
  proof (cases "f y \<le> f x")
    case True
    then show ?thesis by simp
  next
    case False
    then have "f x \<noteq> f y" by auto
    with False Cons.IH[OF srt] show ?thesis by auto
  qed
qed

lemma sort_desc_stable:
  "filter (\<lambda>y. f y = k) (sort_desc f xs) = filter (\<lambda>y. f y = k) xs"
proof (induction xs)
  case Nil
  show ?case by (simp add: sort_desc_def)
next
  case (Cons x xs)
  have "sort_desc f (x # xs) = insort_desc f x (sort_desc f xs)" by (simp add: sort_desc_def)
  then show ?case using Cons.IH filter_insort_desc[OF sorted_sort_desc, of f k x xs] by simp
qed

section \<open>Slices\<close>

lemma length_slice_to: "0 \<le> n \<Longrightarrow> length (slice_to n xs) \<le> nat n"
  by (simp add: slice_to_def)

lemma set_slice_to: "set (slice_to n xs) \<subseteq> set xs"
  by (auto simp: slice_to_def dest: in_set_takeD)

lemma slice_to_nonneg: "0 \<le> n \<Longrightarrow> slice_to n xs = take (nat n) xs"
  by (simp add: slice_to_def)


section \<open>Search results\<close>

lemma bump_score_keys: "set (map fst (bump_score fl d v sc)) = insert d (set (map fst sc))"
  by (induction fl d v sc rule: bump_score.induct) auto

lemma score_docs_ok:
  assumes "\<forall>d\<in>set ds. doc_lengths S d \<noteq> Some 0"
  shows "\<exists>sc'. score_docs fl S idf ds sc = Inr sc' \<and> set (map fst sc') = set (map fst sc) \<union> set ds"
  using assms
proof (induction ds arbitrary: sc)
  case Nil
  show ?case by simp
next
  case (Cons d ds)
  let ?n = "case doc_lengths S d of None \<Rightarrow> 1 | Some n \<Rightarrow> n"
  let ?v = "f_mul fl (f_div fl (f_of_int fl 1) (f_sqrt fl (f_of_int fl (int ?n)))) idf"
  from Cons.prems have n: "?n \<noteq> 0" by (auto split: option.splits)
  from Cons.prems have "\<forall>d\<in>set ds. doc_lengths S d \<noteq> Some 0" by simp
  from Cons.IH[OF this, of "bump_score fl d ?v sc"]
  obtain sc' where 1: "score_docs fl S idf ds (bump_score fl d ?v sc) = Inr sc'"
    and 2: "set (map fst sc') = set (map fst (bump_score fl d ?v sc)) \<union> set ds" by blast
  have "score_docs fl S idf (d # ds) sc = Inr sc'"
    using n 1 by (simp add: Let_def)
  moreover have "set (map fst sc') = set (map fst sc) \<union> set (d # ds)"
    unfolding 2 bump_score_keys by auto
  ultimately show ?case by blast
qed

lemma idf_of_ok: "total_docs S \<noteq> 0 \<Longrightarrow> \<exists>idf. idf_of fl S t = Inr idf"
  by (simp add: idf_of_def Let_def)

lemma score_tokens_ok:
  assumes "search_safe iter S"
  shows "\<exists>sc'. score_tokens fl iter S ts sc = Inr sc' \<and>
           set (map fst sc') = set (map fst sc) \<union> (\<Union>t\<in>set ts. hits iter S t)"
proof (induction ts arbitrary: sc)
  case Nil
  show ?case by simp
next
  case (Cons t ts)
  show ?case
  proof (cases "index S t")
    case None
    from Cons.IH[of sc]
    obtain sc' where sc': "score_tokens fl iter S ts sc = Inr sc'"
      and k': "set (map fst sc') = set (map fst sc) \<union> (\<Union>t\<in>set ts. hits iter S t)" by blast
    have "score_tokens fl iter S (t # ts) sc = Inr sc'" by (simp add: None sc')
    moreover have "set (map fst sc') = set (map fst sc) \<union> (\<Union>t\<in>set (t # ts). hits iter S t)"
      unfolding k' using None by (simp add: hits_def)
    ultimately show ?thesis by blast
  next
    case (Some ds)
    from assms Some have tot: "total_docs S \<noteq> 0"
      and len: "\<forall>d\<in>set (iter ds). doc_lengths S d \<noteq> Some 0"
      unfolding search_safe_def by blast+
    from idf_of_ok[OF tot, of fl t] obtain idf where idf: "idf_of fl S t = Inr idf" by blast
    from score_docs_ok[OF len, of fl idf sc]
    obtain sc1 where sc1: "score_docs fl S idf (iter ds) sc = Inr sc1"
      and k1: "set (map fst sc1) = set (map fst sc) \<union> set (iter ds)" by blast
    from Cons.IH[of sc1]
    obtain sc' where sc': "score_tokens fl iter S ts sc1 = Inr sc'"
      and k': "set (map fst sc') = set (map fst sc1) \<union> (\<Union>t\<in>set ts. hits iter S t)" by blast
    have "score_tokens fl iter S (t # ts) sc = Inr sc'" by (simp add: Some idf sc1 sc')
    moreover have "set (map fst sc') = set (map fst sc) \<union> (\<Union>t\<in>set (t # ts). hits iter S t)"
      unfolding k' k1 using Some by (simp add: hits_def Un_assoc)
    ultimately show ?thesis by blast
  qed
qed

lemma reach_postings:
  assumes "reach D S" "iteration_order iter" "index S t = Some ds"
  shows "set (iter ds) = docs_with D t" and "docs_with D t \<noteq> {}"
proof -
  from assms(1) have fin: "finite (dom D)" and S: "S = index_of D"
    using reach_index_of by blast+
  from assms(3) show ne: "docs_with D t \<noteq> {}"
    unfolding S by (auto simp: index_of_fields split: if_splits)
  from assms(3) have ds: "ds = docs_with D t"
    unfolding S by (auto simp: index_of_fields split: if_splits)
  have "finite ds" unfolding ds using fin by (rule finite_docs_with)
  with assms(2) show "set (iter ds) = docs_with D t"
    unfolding ds by (simp add: iteration_order_def)
qed

lemma reach_search_safe:
  assumes "reach D S" "iteration_order iter"
  shows "search_safe iter S"
  unfolding search_safe_def
proof (intro allI impI conjI ballI)
  fix t ds
  assume i: "index S t = Some ds"
  from assms(1) have fin: "finite (dom D)" and S: "S = index_of D"
    using reach_index_of by blast+
  from reach_postings(2)[OF assms i] docs_with_subset[of D t] have "dom D \<noteq> {}" by blast
  with fin show "total_docs S \<noteq> 0" unfolding S by (simp add: index_of_fields)
  fix d assume "d \<in> set (iter ds)"
  then have "d \<in> docs_with D t" using reach_postings(1)[OF assms i] by simp
  then obtain toks where "D d = Some toks" "t \<in> set toks" by (auto simp: docs_with_def)
  then have "doc_lengths S d = Some (length toks)" "toks \<noteq> []"
    unfolding S by (auto simp: index_of_fields)
  then show "doc_lengths S d \<noteq> Some 0" by simp
qed

lemma reach_hits:
  assumes "reach D S" "iteration_order iter"
  shows "hits iter S t = docs_with D t"
proof (cases "index S t")
  case None
  from assms(1) have S: "S = index_of D" using reach_index_of by blast
  from None have "docs_with D t = {}" unfolding S by (auto simp: index_of_fields split: if_splits)
  with None show ?thesis by (simp add: hits_def)
next
  case (Some ds)
  with reach_postings(1)[OF assms Some] show ?thesis by (simp add: hits_def)
qed

text \<open>
  Claim C3. In every state of the index, for every query \<open>q\<close>, every iteration order
  and every count \<open>k\<close> (\<open>k \<ge> 0\<close>), \<open>search\<close> raises no exception and returns at most \<open>k\<close>
  results; every returned id is that of a document in the index whose tokens meet the
  tokens of \<open>q\<close>; and a query without tokens gives the empty list.
\<close>

theorem C3_search_bounded:
  assumes "reach D S" and "iteration_order iter" and "0 \<le> k"
  shows "\<exists>rs. search fl iter S q k = Inr rs \<and> length rs \<le> nat k \<and>
           (\<forall>x\<in>set (map fst rs). \<exists>toks. D x = Some toks \<and> set toks \<inter> set (tokenize q) \<noteq> {}) \<and>
           (tokenize q = [] \<longrightarrow> rs = [])"
proof (cases "blank q \<or> tokenize q = []")
  case True
  then have "search fl iter S q k = Inr []" by (auto simp: search_def Let_def)
  then show ?thesis by simp
next
  case False
  have "\<exists>sc'. score_tokens fl iter S (tokenize q) [] = Inr sc' \<and>
           set (map fst sc') = (\<Union>t\<in>set (tokenize q). hits iter S t)"
    using score_tokens_ok[OF reach_search_safe[OF assms(1,2)], of fl "tokenize q" "[]"] by simp
  then obtain sc where sc: "score_tokens fl iter S (tokenize q) [] = Inr sc"
    and keys: "set (map fst sc) = (\<Union>t\<in>set (tokenize q). hits iter S t)"
    by (elim exE conjE)
  let ?rs = "slice_to k (sort_desc snd sc)"
  have res: "search fl iter S q k = Inr ?rs"
    using False by (simp add: search_def Let_def sc)
  have len: "length ?rs \<le> nat k" using assms(3) by (rule length_slice_to)
  have sub: "set ?rs \<subseteq> set sc" using set_slice_to[of k "sort_desc snd sc"]
    by (simp add: set_sort_desc)
  have inter: "\<forall>x\<in>set (map fst ?rs). \<exists>toks. D x = Some toks \<and> set toks \<inter> set (tokenize q) \<noteq> {}"
  proof
    fix x assume "x \<in> set (map fst ?rs)"
    then have "x \<in> set (map fst sc)" using sub by auto
    then obtain t where t: "t \<in> set (tokenize q)" and "x \<in> hits iter S t"
      unfolding keys by auto
    then have "x \<in> docs_with D t" by (simp add: reach_hits[OF assms(1,2)])
    then obtain toks where "D x = Some toks" "t \<in> set toks" by (auto simp: docs_with_def)
    with t show "\<exists>toks. D x = Some toks \<and> set toks \<inter> set (tokenize q) \<noteq> {}" by blast
  qed
  have "tokenize q \<noteq> []" using False by simp
  with res len inter show ?thesis by (intro exI[of _ ?rs]) simp
qed


lemma iteration_order_sorted_iter: "iteration_order sorted_iter"
  by (simp add: iteration_order_def sorted_iter_def)

lemma reach_two_docs: "reach two_docs two_docs_index"
  unfolding two_docs_def two_docs_index_def by (intro reach_add reach_init)

lemma two_docs_tokens:
  "doc_tokens ''Red Shoes sturdy'' [] = [''red'', ''shoes'', ''sturdy'']"
  "doc_tokens ''Blue Shoes light'' [] = [''blue'', ''shoes'', ''light'']"
  "tokenize ''shoes'' = [''shoes'']"
  "blank ''shoes'' = False"
  by code_simp+

lemma two_docs_shoes: "docs_with two_docs ''shoes'' = {''P1'', ''P2''}"
  by (auto simp: two_docs_def docs_with_update docs_with_empty two_docs_tokens)

lemma two_docs_search:
  "search real_ops sorted_iter two_docs_index ''shoes'' k = Inr (slice_to k [(''P1'', 0), (''P2'', 0)])"
proof -
  have S: "two_docs_index = index_of two_docs"
    using reach_index_of[OF reach_two_docs] by simp
  have dom: "dom two_docs = {''P1'', ''P2''}" by (auto simp: two_docs_def)
  have l: "doc_lengths (index_of two_docs) ''P1'' = Some 3" "doc_lengths (index_of two_docs) ''P2'' = Some 3"
    by (simp_all add: index_of_fields two_docs_def two_docs_tokens)
  have idf: "idf_of real_ops (index_of two_docs) ''shoes'' = Inr 0"
    by (simp add: idf_of_def df_get_index_of two_docs_shoes index_of_fields dom real_ops_def)
  have it: "sorted_iter {''P1'', ''P2''} = [''P1'', ''P2'']" by (simp add: sorted_iter_def)
  have sd: "score_docs real_ops (index_of two_docs) 0 [''P1'', ''P2''] [] = Inr [(''P1'', 0), (''P2'', 0)]"
    by (simp add: l Let_def real_ops_def)
  have sc: "score_tokens real_ops sorted_iter (index_of two_docs) [''shoes''] [] = Inr [(''P1'', 0), (''P2'', 0)]"
    by (simp add: index_of_fields(1) two_docs_shoes idf it sd del: score_docs.simps)
  show ?thesis unfolding S
    by (simp add: search_def two_docs_tokens sc sort_desc_def del: score_tokens.simps)
qed

theorem C3_search_bounded_witness:
  "reach two_docs two_docs_index \<and> iteration_order sorted_iter \<and> (0::int) \<le> 1
   \<and> (\<exists>rs. search real_ops sorted_iter two_docs_index ''shoes'' 1 = Inr rs \<and> length rs \<le> nat 1 \<and>
         (\<forall>x\<in>set (map fst rs). \<exists>toks. two_docs x = Some toks \<and> set toks \<inter> set (tokenize ''shoes'') \<noteq> {}) \<and>
         (tokenize ''shoes'' = [] \<longrightarrow> rs = []))"
  using C3_search_bounded[OF reach_two_docs iteration_order_sorted_iter, of 1 real_ops "''shoes''"]
    reach_two_docs iteration_order_sorted_iter
  by simp

section \<open>search_products\<close>

lemma collect_results_min_zero:
  "collect_results store q limit category (Some 0) max_price found acc =
   collect_results store q limit category None max_price found acc"
  by (induction found arbitrary: acc) (auto simp: Let_def split: option.splits)

lemma collect_results_max_zero:
  "collect_results store q limit category min_price (Some 0) found acc =
   collect_results store q limit category min_price None found acc"
  by (induction found arbitrary: acc) (auto simp: Let_def split: option.splits)

lemma search_results_zero:
  "search_results fl iter s q limit category (Some 0) max_price =
   search_results fl iter s q limit category None max_price"
  "search_results fl iter s q limit category min_price (Some 0) =
   search_results fl iter s q limit category min_price None"
  by (simp_all add: search_results_def collect_results_min_zero collect_results_max_zero
        cong: sum.case_cong)

text \<open>
  Claim C10. A \<open>min_price\<close> or a \<open>max_price\<close> of 0 filters nothing: the search
  endpoint answers with the same results (or the same error) as without that bound.
  Only the echo of the request's filters in the response shows the 0.
\<close>

theorem C10_zero_price_bound_is_no_filter:
  "map_sum id (\<lambda>r. (results r, total r, query r))
     (search_products fl iter s q limit category (Some 0) max_price) =
   map_sum id (\<lambda>r. (results r, total r, query r))
     (search_products fl iter s q limit category None max_price)
   \<and>
   map_sum id (\<lambda>r. (results r, total r, query r))
     (search_products fl iter s q limit category min_price (Some 0)) =
   map_sum id (\<lambda>r. (results r, total r, query r))
     (search_products fl iter s q limit category min_price None)"
  by (simp add: search_products_def search_results_zero split: sum.splits)

lemma calculate_relevance_score_eq:
  "calculate_relevance_score p qt =
     3 * real (card (set qt \<inter> set (tokenize (title p))))
     + 1 * real (card (set qt \<inter> set (tokenize (description p))))
     + 2 * real (card (set qt \<inter> lower ` set (categories p)))
     + (if 0 < stock p then 1 / 2 else 0)"
  by (simp add: calculate_relevance_score_def Let_def)

lemma collect_results_scored:
  assumes "\<forall>r\<in>set acc. \<exists>pid p. store pid = Some p \<and> r_product_id r = product_id p \<and>
             r_score r = calculate_relevance_score p (tokenize q)"
  shows "\<forall>r\<in>set (collect_results store q limit category min_price max_price found acc).
           \<exists>pid p. store pid = Some p \<and> r_product_id r = product_id p \<and>
             r_score r = calculate_relevance_score p (tokenize q)"
  using assms
proof (induction found arbitrary: acc)
  case Nil
  then show ?case by simp
next
  case (Cons a found)
  obtain pid tfidf where a: "a = (pid, tfidf)" by (cases a)
  show ?case
  proof (cases "store pid")
    case None
    with Cons show ?thesis by (simp add: a)
  next
    case (Some p)
    let ?r = "\<lparr>r_product_id = product_id p, r_title = title p,
               r_score = calculate_relevance_score p (tokenize q),
               r_price_cents = price_cents p, r_currency = currency p, r_stock = stock p\<rparr>"
    have ext: "\<forall>r\<in>set (acc @ [?r]). \<exists>pid p. store pid = Some p \<and> r_product_id r = product_id p \<and>
             r_score r = calculate_relevance_score p (tokenize q)"
      using Cons.prems Some by auto
    from Cons.IH[OF ext] Cons.IH[OF Cons.prems] ext Cons.prems
    show ?thesis by (simp add: a Some Let_def)
  qed
qed

text \<open>
  Claim C4. Every result the search endpoint returns carries, for the product stored
  under its id, the score 3 times the number of distinct query tokens among the title's
  tokens, plus the number among the description's tokens, plus 2 times the number that
  are lower-cased category labels, plus 0.5 if the stock is positive; and the returned
  list is in descending order of this score.
\<close>

theorem C4_relevance_score_and_order:
  fixes fl :: "('f::linorder) float_ops"
  assumes "search_products fl iter s q limit category min_price max_price = Inr resp"
  shows "(\<forall>r\<in>set (results resp). \<exists>pid p.
            products_store s pid = Some p \<and> r_product_id r = product_id p \<and>
            r_score r =
              3 * real (card (set (tokenize q) \<inter> set (tokenize (title p))))
              + 1 * real (card (set (tokenize q) \<inter> set (tokenize (description p))))
              + 2 * real (card (set (tokenize q) \<inter> lower ` set (categories p)))
              + (if 0 < stock p then 1 / 2 else 0))
         \<and> sorted_wrt (\<lambda>a b. r_score b \<le> r_score a) (results resp)"
proof -
  from assms obtain rs where rs: "search_results fl iter s q limit category min_price max_price = Inr rs"
    and resp: "results resp = rs"
    by (auto simp: search_products_def split: sum.splits)
  show ?thesis
  proof (cases "blank q")
    case True
    with rs have "rs = []" by (simp add: search_results_def)
    then show ?thesis by (simp add: resp)
  next
    case False
    with rs have "\<exists>found :: (string \<times> 'f) list. rs = sort_desc r_score
                  (collect_results (products_store s) q limit category min_price max_price found [])"
      by (auto simp: search_results_def split: sum.splits)
    then obtain found :: "(string \<times> 'f) list" where
      rs': "rs = sort_desc r_score
                  (collect_results (products_store s) q limit category min_price max_price found [])"
      by blast
    have "\<forall>r\<in>set rs. \<exists>pid p. products_store s pid = Some p \<and> r_product_id r = product_id p \<and>
             r_score r = calculate_relevance_score p (tokenize q)"
      unfolding rs' set_sort_desc by (rule collect_results_scored) simp
    moreover have "sorted_wrt (\<lambda>a b. r_score b \<le> r_score a) rs"
      unfolding rs' by (rule sorted_sort_desc)
    ultimately show ?thesis unfolding resp calculate_relevance_score_eq by blast
  qed
qed


lemma shop_store: "products_store shop = [''P1'' \<mapsto> red_shoes, ''P2'' \<mapsto> blue_shoes]"
  by (simp add: shop_def index_product_def toy_filter_def engine_init_def Let_def
        red_shoes_def blue_shoes_def)

lemma shop_index: "inverted_index shop = two_docs_index"
  by (simp add: shop_def index_product_def toy_filter_def engine_init_def Let_def
        red_shoes_def blue_shoes_def two_docs_index_def)

lemma shop_scores:
  "calculate_relevance_score red_shoes (tokenize ''shoes'') = 3"
  "calculate_relevance_score blue_shoes (tokenize ''shoes'') = 7 / 2"
  by code_simp+

lemma shop_search_results:
  "search_results real_ops sorted_iter shop ''shoes'' 10 None None None = Inr shoes_results"
proof -
  have c: "collect_results (products_store shop) ''shoes'' 10 None None None
             [(''P1'', 0::real), (''P2'', 0)] [] =
           [\<lparr>r_product_id = ''P1'', r_title = ''Red Shoes'', r_score = 3, r_price_cents = 4999,
              r_currency = ''USD'', r_stock = 0\<rparr>,
            \<lparr>r_product_id = ''P2'', r_title = ''Blue Shoes'', r_score = 7 / 2, r_price_cents = 8999,
              r_currency = ''USD'', r_stock = 1\<rparr>]"
    by (simp add: shop_store shop_scores Let_def) (simp add: red_shoes_def blue_shoes_def)
  show ?thesis
    by (simp add: search_results_def two_docs_tokens shop_index two_docs_search slice_to_def c
          sort_desc_def shoes_results_def del: collect_results.simps)
qed

theorem C4_relevance_score_and_order_witness:
  "search_products real_ops sorted_iter shop ''shoes'' 10 None None None =
     Inr \<lparr>results = shoes_results, total = 2, query = ''shoes'', filters = Some (None, None, None)\<rparr>
   \<and> map r_product_id shoes_results = [''P2'', ''P1'']
   \<and> map r_score shoes_results = [7 / 2, 3]
   \<and> sorted_wrt (\<lambda>a b. r_score b \<le> r_score a) shoes_results"
proof -
  have eq: "search_products real_ops sorted_iter shop ''shoes'' 10 None None None =
     Inr \<lparr>results = shoes_results, total = 2, query = ''shoes'', filters = Some (None, None, None)\<rparr>"
    by (simp add: search_products_def shop_search_results two_docs_tokens) (simp add: shoes_results_def)
  from C4_relevance_score_and_order[OF eq]
  have "sorted_wrt (\<lambda>a b. r_score b \<le> r_score a) shoes_results" by simp
  with eq show ?thesis by (simp add: shoes_results_def)
qed

theorem C10_zero_price_bound_is_no_filter_witness:
  "map_sum id (\<lambda>r. (results r, total r, query r))
     (search_products real_ops sorted_iter shop ''shoes'' 10 None None (Some 0)) =
   Inr (shoes_results, 2, ''shoes'')"
proof -
  have "map_sum id (\<lambda>r. (results r, total r, query r))
     (search_products real_ops sorted_iter shop ''shoes'' 10 None None None) =
   Inr (shoes_results, 2, ''shoes'')"
    by (simp add: search_products_def shop_search_results) (simp add: shoes_results_def)
  with C10_zero_price_bound_is_no_filter[of real_ops sorted_iter shop "''shoes''" 10 None None None]
  show ?thesis by simp
qed

section \<open>The trie\<close>

lemma word_freq_Nil: "word_freq (TrieNode cs b n) [] = (if b then Some n else None)"
  by (simp add: word_freq_def)

lemma word_freq_Cons:
  "word_freq (TrieNode cs b n) (c # s) =
     (case map_of cs c of None \<Rightarrow> None | Some child \<Rightarrow> word_freq child s)"
  by (simp add: word_freq_def split: option.splits)

lemma descend_append:
  "descend (p @ s) trie = (case descend p trie of None \<Rightarrow> None | Some node \<Rightarrow> descend s node)"
  by (induction p arbitrary: trie) (auto split: option.splits)

lemma word_freq_append:
  "word_freq trie (p @ s) = (case descend p trie of None \<Rightarrow> None | Some node \<Rightarrow> word_freq node s)"
  by (simp add: word_freq_def descend_append split: option.splits)

lemma collect_words_prefix:
  "(w, f) \<in> set (collect_words node pre) \<Longrightarrow> \<exists>s. w = pre @ s"
proof (induction node pre arbitrary: w f rule: collect_words.induct)
  case (1 cs b n pre)
  from "1.prems" consider "w = pre" | c child where "(c, child) \<in> set cs" "(w, f) \<in> set (collect_words child (pre @ [c]))"
    by (auto split: if_splits)
  then show ?case
  proof cases
    case 1
    then show ?thesis by simp
  next
    case 2
    from "1.IH"[OF 2(1) refl 2(2)] show ?thesis by auto
  qed
qed

lemma collect_words_iff:
  "wf_trie node \<Longrightarrow>
   (w, f) \<in> set (collect_words node pre) \<longleftrightarrow> (\<exists>s. w = pre @ s \<and> word_freq node s = Some f)"
proof (induction node pre arbitrary: w f rule: collect_words.induct)
  case (1 cs b n pre)
  from "1.prems" have dist: "distinct (map fst cs)"
    and wf: "\<And>c child. (c, child) \<in> set cs \<Longrightarrow> wf_trie child" by force+
  have IH: "\<And>c child w f. (c, child) \<in> set cs \<Longrightarrow>
      (w, f) \<in> set (collect_words child (pre @ [c])) \<longleftrightarrow>
      (\<exists>s. w = pre @ c # s \<and> word_freq child s = Some f)"
    using "1.IH"[OF _ refl wf] by simp
  have mo: "\<And>c child. map_of cs c = Some child \<longleftrightarrow> (c, child) \<in> set cs"
    using dist by simp
  show ?case
  proof
    assume "(w, f) \<in> set (collect_words (TrieNode cs b n) pre)"
    then consider "b" "w = pre" "f = n"
      | c child where "(c, child) \<in> set cs" "(w, f) \<in> set (collect_words child (pre @ [c]))"
      by (auto split: if_splits)
    then show "\<exists>s. w = pre @ s \<and> word_freq (TrieNode cs b n) s = Some f"
    proof cases
      case 1
      then show ?thesis by (intro exI[of _ "[]"]) (simp add: word_freq_Nil)
    next
      case 2
      from IH[OF 2(1)] 2(2) obtain s where "w = pre @ c # s" "word_freq child s = Some f" by blast
      with 2(1) show ?thesis by (intro exI[of _ "c # s"]) (simp add: word_freq_Cons mo[symmetric])
    qed
  next
    assume "\<exists>s. w = pre @ s \<and> word_freq (TrieNode cs b n) s = Some f"
    then obtain s where w: "w = pre @ s" and f: "word_freq (TrieNode cs b n) s = Some f" by blast
    show "(w, f) \<in> set (collect_words (TrieNode cs b n) pre)"
    proof (cases s)
      case Nil
      with w f show ?thesis by (simp add: word_freq_Nil split: if_splits)
    next
      case (Cons c s')
      with f obtain child where ch: "map_of cs c = Some child" and f': "word_freq child s' = Some f"
        by (auto simp: word_freq_Cons split: option.splits)
      then have mem: "(c, child) \<in> set cs" by (simp add: mo)
      from IH[OF mem, of w f] w Cons f' have "(w, f) \<in> set (collect_words child (pre @ [c]))" by simp
      with mem show ?thesis by force
    qed
  qed
qed


lemma distinct_children_words:
  assumes "distinct (map fst cs)"
    and "\<And>c child. (c, child) \<in> set cs \<Longrightarrow> distinct (map fst (collect_words child (pre @ [c])))"
  shows "distinct (map fst (concat (map (\<lambda>(c, child). collect_words child (pre @ [c])) cs)))"
  using assms
proof (induction cs)
  case Nil
  show ?case by simp
next
  case (Cons a cs)
  obtain c child where a: "a = (c, child)" by (cases a)
  from Cons.prems(1) have notin: "c \<notin> fst ` set cs" and dist: "distinct (map fst cs)"
    by (auto simp: a)
  have rest: "distinct (map fst (concat (map (\<lambda>(c, child). collect_words child (pre @ [c])) cs)))"
    by (rule Cons.IH[OF dist]) (simp add: Cons.prems(2))
  have here: "distinct (map fst (collect_words child (pre @ [c])))"
    by (rule Cons.prems(2)) (simp add: a)
  have disj: "fst ` set (collect_words child (pre @ [c])) \<inter>
      fst ` set (concat (map (\<lambda>(c, child). collect_words child (pre @ [c])) cs)) = {}"
  proof (rule ccontr)
    assume "\<not> ?thesis"
    then obtain w f f' c' child' where 1: "(w, f) \<in> set (collect_words child (pre @ [c]))"
      and 2: "(c', child') \<in> set cs" and 3: "(w, f') \<in> set (collect_words child' (pre @ [c']))"
      by fastforce
    from collect_words_prefix[OF 1] collect_words_prefix[OF 3] have "c = c'" by auto
    with 2 notin show False by force
  qed
  show ?case using rest here disj by (simp add: a)
qed

lemma distinct_collect_words:
  "wf_trie node \<Longrightarrow> distinct (map fst (collect_words node pre))"
proof (induction node pre rule: collect_words.induct)
  case (1 cs b n pre)
  from "1.prems" have dist: "distinct (map fst cs)"
    and wf: "\<And>c child. (c, child) \<in> set cs \<Longrightarrow> wf_trie child" by force+
  have kids: "distinct (map fst (concat (map (\<lambda>(c, child). collect_words child (pre @ [c])) cs)))"
    by (rule distinct_children_words[OF dist]) (rule "1.IH"[OF _ refl wf])
  have "pre \<notin> fst ` set (concat (map (\<lambda>(c, child). collect_words child (pre @ [c])) cs))"
  proof
    assume "pre \<in> fst ` set (concat (map (\<lambda>(c, child). collect_words child (pre @ [c])) cs))"
    then obtain f c child where "(pre, f) \<in> set (collect_words child (pre @ [c]))" by fastforce
    from collect_words_prefix[OF this] show False by simp
  qed
  with kids show ?case by simp
qed

lemma wf_trie_insert_chars: "wf_trie trie \<Longrightarrow> wf_trie (insert_chars w f trie)"
proof (induction w f trie rule: insert_chars.induct)
  case (1 f cs b n)
  then show ?case by simp
next
  case (2 c w f cs b n)
  from "2.prems" have dist: "distinct (map fst cs)"
    and wf: "\<And>child. child \<in> snd ` set cs \<Longrightarrow> wf_trie child" by auto
  show ?case
  proof (cases "map_of cs c")
    case None
    then have "c \<notin> fst ` set cs" by (simp add: map_of_eq_None_iff)
    moreover have "wf_trie (insert_chars w f empty_node)"
      by (rule "2.IH"(1)[OF None]) (simp add: empty_node_def)
    ultimately show ?thesis using dist wf by (auto simp: None)
  next
    case (Some child0)
    have keys: "map fst (map (\<lambda>(k, child). if k = c then (k, insert_chars w f child) else (k, child)) cs)
        = map fst cs"
      by (induction cs) auto
    have step: "\<And>k child'. (k, child') \<in> set cs \<Longrightarrow>
        wf_trie (if k = c then insert_chars w f child' else child')"
    proof -
      fix k child'
      assume mem: "(k, child') \<in> set cs"
      then have wf': "wf_trie child'" by (intro wf) force
      show "wf_trie (if k = c then insert_chars w f child' else child')"
      proof (cases "k = c")
        case True
        with "2.IH"(2)[OF Some mem refl True wf'] show ?thesis by simp
      next
        case False
        with wf' show ?thesis by simp
      qed
    qed
    have "\<And>child. child \<in> snd ` set (map (\<lambda>(k, child). if k = c then (k, insert_chars w f child) else (k, child)) cs)
        \<Longrightarrow> wf_trie child"
    proof -
      fix child
      assume "child \<in> snd ` set (map (\<lambda>(k, child). if k = c then (k, insert_chars w f child) else (k, child)) cs)"
      then obtain e where e: "e \<in> set cs"
        and eq: "child = snd ((\<lambda>(k, child). if k = c then (k, insert_chars w f child) else (k, child)) e)"
        by auto
      obtain k child' where ek: "e = (k, child')" by (cases e)
      from step[of k child'] e eq show "wf_trie child" by (simp add: ek split: if_splits)
    qed
    with dist keys show ?thesis by (simp add: Some del: map_map)
  qed
qed

lemma trie_reach_wf: "trie_reach trie \<Longrightarrow> wf_trie trie"
  by (induction rule: trie_reach.induct)
     (simp_all add: empty_node_def trie_insert_def wf_trie_insert_chars)

lemma wf_trie_descend: "wf_trie trie \<Longrightarrow> descend p trie = Some node \<Longrightarrow> wf_trie node"
proof (induction p arbitrary: trie)
  case Nil
  then show ?case by simp
next
  case (Cons c p)
  obtain cs b n where t: "trie = TrieNode cs b n" by (cases trie)
  from Cons.prems(2) obtain child where ch: "map_of cs c = Some child" and d: "descend p child = Some node"
    by (auto simp: t split: option.splits)
  from ch have "child \<in> snd ` set cs" by (force dest: map_of_SomeD)
  with Cons.prems(1) have "wf_trie child" by (auto simp: t)
  from Cons.IH[OF this d] show ?case .
qed

lemma traversal_iff:
  assumes "wf_trie trie"
  shows "(w, f) \<in> set (traversal trie p) \<longleftrightarrow> (\<exists>s. w = p @ s) \<and> word_freq trie w = Some f"
proof (cases "descend p trie")
  case None
  then show ?thesis by (auto simp: traversal_def word_freq_append)
next
  case (Some node)
  from collect_words_iff[OF wf_trie_descend[OF assms Some], of w f p] Some
  show ?thesis by (auto simp: traversal_def word_freq_append)
qed

lemma distinct_traversal: "wf_trie trie \<Longrightarrow> distinct (map fst (traversal trie p))"
  by (auto simp: traversal_def distinct_collect_words wf_trie_descend split: option.splits)

lemma search_prefix_traversal:
  "p \<noteq> [] \<Longrightarrow> search_prefix trie p k = map fst (slice_to k (sort_desc snd (traversal trie (lower p))))"
  by (simp add: search_prefix_def traversal_def slice_to_def sort_desc_def split: option.splits)


lemma trie_reach_funpow: "trie_reach trie \<Longrightarrow> trie_reach ((trie_insert w f ^^ n) trie)"
  by (induction n) (auto intro: trie_reach_insert)

lemma trie_reach_cam_trie: "trie_reach cam_trie"
  unfolding cam_trie_def by (intro trie_reach_insert trie_reach_funpow trie_reach_empty)

text \<open>
  Claim C5, corrected. For every trie that \<open>insert\<close> builds, every non-empty prefix
  \<open>p\<close> and every \<open>k \<ge> 0\<close>, \<open>search_prefix\<close> returns the first \<open>k\<close> words of a list that
  holds each word of the trie that starts with the lower-cased prefix once, with its
  frequency, in descending order of frequency; words of equal frequency stand in the
  order of the trie's traversal (depth first, children in insertion order), not in
  lexical order. After \<open>camera\<close> is inserted ten times and \<open>camisole\<close> once,
  \<open>search_prefix(''cam'', 5)\<close> is \<open>[camera, camisole]\<close>.
\<close>

theorem C5_search_prefix_order:
  assumes "trie_reach trie" and "p \<noteq> []" and "0 \<le> k"
  shows "(\<exists>ms. search_prefix trie p k = take (nat k) (map fst ms)
            \<and> distinct (map fst ms)
            \<and> (\<forall>w f. (w, f) \<in> set ms \<longleftrightarrow> (\<exists>s. w = lower p @ s) \<and> word_freq trie w = Some f)
            \<and> sorted_wrt (\<lambda>a b. snd b \<le> snd a) ms
            \<and> (\<forall>f. filter (\<lambda>m. snd m = f) ms = filter (\<lambda>m. snd m = f) (traversal trie (lower p))))
         \<and> search_prefix cam_trie ''cam'' 5 = [''camera'', ''camisole'']"
proof
  let ?tr = "traversal trie (lower p)"
  let ?ms = "sort_desc snd ?tr"
  from assms(1) have wf: "wf_trie trie" by (rule trie_reach_wf)
  have 1: "search_prefix trie p k = take (nat k) (map fst ?ms)"
    using assms(2,3) by (simp add: search_prefix_traversal slice_to_nonneg take_map)
  have "mset (map fst ?ms) = mset (map fst ?tr)" by (simp add: mset_sort_desc)
  then have 2: "distinct (map fst ?ms)"
    using distinct_traversal[OF wf, of "lower p"] by (metis mset_eq_imp_distinct_iff)
  have 3: "\<forall>w f. (w, f) \<in> set ?ms \<longleftrightarrow> (\<exists>s. w = lower p @ s) \<and> word_freq trie w = Some f"
    by (simp add: set_sort_desc traversal_iff[OF wf])
  have 4: "sorted_wrt (\<lambda>a b. snd b \<le> snd a) ?ms" by (rule sorted_sort_desc)
  have 5: "\<forall>f. filter (\<lambda>m. snd m = f) ?ms = filter (\<lambda>m. snd m = f) ?tr"
    by (simp add: sort_desc_stable)
  from 1 2 3 4 5
  show "\<exists>ms. search_prefix trie p k = take (nat k) (map fst ms)
            \<and> distinct (map fst ms)
            \<and> (\<forall>w f. (w, f) \<in> set ms \<longleftrightarrow> (\<exists>s. w = lower p @ s) \<and> word_freq trie w = Some f)
            \<and> sorted_wrt (\<lambda>a b. snd b \<le> snd a) ms
            \<and> (\<forall>f. filter (\<lambda>m. snd m = f) ms = filter (\<lambda>m. snd m = f) (traversal trie (lower p)))"
    by (intro exI[of _ ?ms] conjI)
next
  show "search_prefix cam_trie ''cam'' 5 = [''camera'', ''camisole'']" by code_simp
qed

text \<open>
  \<open>cb\<close> and \<open>ca\<close>, each inserted once, in this order: \<open>search_prefix(''c'', 5)\<close> returns
  \<open>cb\<close> before \<open>ca\<close>, and \<open>search_prefix(''c'', -1)\<close> returns one word.
\<close>

theorem C5_ties_in_insertion_order:
  "search_prefix tie_trie ''c'' 5 = [''cb'', ''ca'']
   \<and> word_freq tie_trie ''ca'' = Some 1 \<and> word_freq tie_trie ''cb'' = Some 1 \<and> ''ca'' < ''cb''
   \<and> search_prefix tie_trie ''c'' (- 1) = [''cb'']"
  by code_simp

theorem C5_search_prefix_order_witness:
  "trie_reach cam_trie \<and> ''cam'' \<noteq> [] \<and> (0::int) \<le> 5
   \<and> ((\<exists>ms. search_prefix cam_trie ''cam'' 5 = take (nat 5) (map fst ms)
            \<and> distinct (map fst ms)
            \<and> (\<forall>w f. (w, f) \<in> set ms \<longleftrightarrow> (\<exists>s. w = lower ''cam'' @ s) \<and> word_freq cam_trie w = Some f)
            \<and> sorted_wrt (\<lambda>a b. snd b \<le> snd a) ms
            \<and> (\<forall>f. filter (\<lambda>m. snd m = f) ms = filter (\<lambda>m. snd m = f) (traversal cam_trie (lower ''cam''))))
         \<and> search_prefix cam_trie ''cam'' 5 = [''camera'', ''camisole''])"
proof -
  have a: "''cam'' \<noteq> []" and b: "(0::int) \<le> 5" by simp_all
  note c = C5_search_prefix_order[OF trie_reach_cam_trie a b]
  show ?thesis by (rule conjI[OF trie_reach_cam_trie conjI[OF a conjI[OF b c]]])
qed

section \<open>Recommendations\<close>

lemma hd_insort_desc:
  "hd (insort_desc f x ys) = (if ys = [] \<or> f (hd ys) \<le> f x then x else hd ys)"
  by (cases ys) auto

lemma sort_desc_Cons: "sort_desc f (x # xs) = insort_desc f x (sort_desc f xs)"
  by (simp add: sort_desc_def)

lemma sort_desc_eq_Nil: "sort_desc f xs = [] \<longleftrightarrow> xs = []"
  using length_sort_desc[of f xs] by auto

lemma hd_sort_desc:
  "c \<noteq> [] \<Longrightarrow>
   \<exists>before x after. c = before @ x # after \<and> hd (sort_desc f c) = x \<and>
     (\<forall>y\<in>set before. f y < f x) \<and> (\<forall>y\<in>set after. f y \<le> f x)"
proof (induction c)
  case Nil
  then show ?case by simp
next
  case (Cons a c)
  show ?case
  proof (cases "c = []")
    case True
    then show ?thesis by (intro exI[of _ "[]"] exI[of _ a]) (simp add: sort_desc_def)
  next
    case False
    from Cons.IH[OF False] obtain before x after where c: "c = before @ x # after"
      and h: "hd (sort_desc f c) = x" and b: "\<forall>y\<in>set before. f y < f x"
      and a: "\<forall>y\<in>set after. f y \<le> f x" by blast
    have ne: "sort_desc f c \<noteq> []" using False by (simp add: sort_desc_eq_Nil)
    show ?thesis
    proof (cases "f x \<le> f a")
      case True
      have "hd (sort_desc f (a # c)) = a" using True h ne by (simp add: sort_desc_Cons hd_insort_desc)
      moreover have "\<forall>y\<in>set c. f y \<le> f a" using True a b unfolding c by fastforce
      ultimately show ?thesis by (intro exI[of _ "[]"] exI[of _ a] exI[of _ c]) simp
    next
      case False
      have "hd (sort_desc f (a # c)) = x" using False h ne by (simp add: sort_desc_Cons hd_insort_desc)
      moreover have "\<forall>y\<in>set (a # before). f y < f x" using False b by auto
      ultimately show ?thesis using a
        by (intro exI[of _ "a # before"] exI[of _ x] exI[of _ after]) (simp add: c)
    qed
  qed
qed

lemma category_fallback_shape:
  assumes "int (length recs) < k"
  shows "\<exists>extra. pid \<notin> set extra \<and>
     ((fst (category_fallback iter E pid k cats recs why) = recs @ extra \<and>
       int (length (recs @ extra)) < k \<and>
       snd (category_fallback iter E pid k cats recs why) = why)
      \<or>
      (fst (category_fallback iter E pid k cats recs why) = slice_to k (recs @ extra) \<and>
       k \<le> int (length (recs @ extra)) \<and>
       (\<exists>c\<in>set cats. snd (category_fallback iter E pid k cats recs why) = ''similar products in '' @ c)))"
  using assms
proof (induction cats arbitrary: recs)
  case Nil
  then show ?case by (intro exI[of _ "[]"]) simp
next
  case (Cons c cats)
  let ?similar = "filter (\<lambda>p. p \<noteq> pid) (iter (category_members E (lower c)))"
  show ?case
  proof (cases "k \<le> int (length (recs @ ?similar))")
    case True
    then show ?thesis by (intro exI[of _ ?similar]) (simp add: Let_def)
  next
    case False
    then have "int (length (recs @ ?similar)) < k" by simp
    from Cons.IH[OF this] obtain extra where e: "pid \<notin> set extra"
      and d: "(fst (category_fallback iter E pid k cats (recs @ ?similar) why) = (recs @ ?similar) @ extra \<and>
         int (length ((recs @ ?similar) @ extra)) < k \<and>
         snd (category_fallback iter E pid k cats (recs @ ?similar) why) = why)
        \<or>
        (fst (category_fallback iter E pid k cats (recs @ ?similar) why) = slice_to k ((recs @ ?similar) @ extra) \<and>
         k \<le> int (length ((recs @ ?similar) @ extra)) \<and>
         (\<exists>c\<in>set cats. snd (category_fallback iter E pid k cats (recs @ ?similar) why) = ''similar products in '' @ c))"
      by blast
    have step: "category_fallback iter E pid k (c # cats) recs why =
        category_fallback iter E pid k cats (recs @ ?similar) why"
      using False by (simp add: Let_def)
    from e d show ?thesis unfolding step
      by (intro exI[of _ "?similar @ extra"]) auto
  qed
qed


lemma counter_incr_keys: "fst ` set (counter_incr x c) = insert x (fst ` set c)"
  by (induction x c rule: counter_incr.induct) auto

lemma no_self_view_counter:
  assumes "\<forall>pid c. view_matrix E pid = Some c \<longrightarrow> pid \<notin> fst ` set c"
  shows "a \<notin> fst ` set (view_counter E a)"
proof (cases "view_matrix E a")
  case None
  then show ?thesis by (simp add: view_counter_def)
next
  case (Some c)
  with assms have "a \<notin> fst ` set c" by blast
  with Some show ?thesis by (simp add: view_counter_def)
qed

lemma record_view_step_no_self:
  assumes "\<forall>pid c. view_matrix E pid = Some c \<longrightarrow> pid \<notin> fst ` set c"
  shows "\<forall>pid c. view_matrix (record_view_step a other E) pid = Some c \<longrightarrow> pid \<notin> fst ` set c"
proof (intro allI impI)
  fix pid c
  assume v: "view_matrix (record_view_step a other E) pid = Some c"
  show "pid \<notin> fst ` set c"
  proof (cases "other \<noteq> a \<and> pid = a")
    case True
    with v have c: "c = counter_incr other (view_counter E a)"
      by (simp add: record_view_step_def)
    have "a \<notin> fst ` set (view_counter E a)"
      using assms by (rule no_self_view_counter)
    with True show ?thesis unfolding c counter_incr_keys by auto
  next
    case False
    with v have "view_matrix E pid = Some c"
      by (auto simp: record_view_step_def split: if_splits)
    with assms show ?thesis by blast
  qed
qed

lemma record_view_no_self:
  assumes "\<forall>pid c. view_matrix E pid = Some c \<longrightarrow> pid \<notin> fst ` set c"
  shows "\<forall>pid c. view_matrix (record_view a session E) pid = Some c \<longrightarrow> pid \<notin> fst ` set c"
  using assms unfolding record_view_def
proof (induction session arbitrary: E)
  case Nil
  then show ?case by simp
next
  case (Cons other session)
  from Cons.IH[OF record_view_step_no_self[OF Cons.prems]] show ?case by simp
qed

lemma view_matrix_fold_add_category:
  "view_matrix (fold (add_category pid) cats E) = view_matrix E"
  by (induction cats arbitrary: E) (simp_all add: add_category_def)

lemma view_matrix_add_product_metadata:
  "view_matrix (add_product_metadata pid cats cents E) = view_matrix E"
  by (simp add: add_product_metadata_def Let_def view_matrix_fold_add_category)

lemma rec_reach_no_self:
  "rec_reach E \<Longrightarrow> \<forall>pid c. view_matrix E pid = Some c \<longrightarrow> pid \<notin> fst ` set c"
proof (induction rule: rec_reach.induct)
  case rec_reach_init
  show ?case by (simp add: rec_init_def)
next
  case (rec_reach_view E pid session_products)
  then show ?case by (intro record_view_no_self)
next
  case (rec_reach_metadata E pid cats cents)
  then show ?case by (simp add: view_matrix_add_product_metadata)
qed

lemma coviewed_part_subset:
  "set (fst (coviewed_part E a k)) \<subseteq> fst ` set (view_counter E a)"
proof (cases "view_matrix E a")
  case None
  then show ?thesis by (simp add: coviewed_part_def)
next
  case (Some c)
  have "set (take (nat k) (sort_desc snd c)) \<subseteq> set c"
    using set_take_subset[of "nat k" "sort_desc snd c"] by (simp add: set_sort_desc)
  then show ?thesis
    by (auto simp: coviewed_part_def view_counter_def Some most_common_def Let_def)
qed

lemma get_recommendations_cases:
  obtains
    (coviewed) "get_recommendations iter store E a k = coviewed_part E a k"
      and "k \<le> int (length (fst (coviewed_part E a k))) \<or> store a = None"
  | (short) extra where "a \<notin> set extra"
      and "fst (get_recommendations iter store E a k) = fst (coviewed_part E a k) @ extra"
      and "int (length (fst (get_recommendations iter store E a k))) < k"
      and "snd (get_recommendations iter store E a k) = snd (coviewed_part E a k)"
  | (filled) extra c p where "a \<notin> set extra" and "store a = Some p" and "c \<in> set (categories p)"
      and "fst (get_recommendations iter store E a k) = slice_to k (fst (coviewed_part E a k) @ extra)"
      and "int (length (fst (coviewed_part E a k))) < k"
      and "k \<le> int (length (fst (coviewed_part E a k) @ extra))"
      and "snd (get_recommendations iter store E a k) = ''similar products in '' @ c"
proof -
  obtain recs why where cp: "coviewed_part E a k = (recs, why)" by (cases "coviewed_part E a k")
  show ?thesis
  proof (cases "int (length recs) < k")
    case False
    then have "get_recommendations iter store E a k = coviewed_part E a k"
      by (simp add: get_recommendations_def cp)
    with False show ?thesis by (intro coviewed) (simp_all add: cp)
  next
    case True
    show ?thesis
    proof (cases "store a")
      case None
      with True have "get_recommendations iter store E a k = coviewed_part E a k"
        by (simp add: get_recommendations_def cp)
      with None show ?thesis by (intro coviewed) simp_all
    next
      case (Some p)
      with True have g: "get_recommendations iter store E a k =
          category_fallback iter E a k (categories p) recs why"
        by (simp add: get_recommendations_def cp)
      from category_fallback_shape[OF True, of a iter E "categories p" why]
      obtain extra where e: "a \<notin> set extra"
        and d: "(fst (category_fallback iter E a k (categories p) recs why) = recs @ extra \<and>
           int (length (recs @ extra)) < k \<and>
           snd (category_fallback iter E a k (categories p) recs why) = why)
          \<or>
          (fst (category_fallback iter E a k (categories p) recs why) = slice_to k (recs @ extra) \<and>
           k \<le> int (length (recs @ extra)) \<and>
           (\<exists>c\<in>set (categories p).
              snd (category_fallback iter E a k (categories p) recs why) = ''similar products in '' @ c))"
        by blast
      from d show ?thesis
      proof
        assume "fst (category_fallback iter E a k (categories p) recs why) = recs @ extra \<and>
           int (length (recs @ extra)) < k \<and>
           snd (category_fallback iter E a k (categories p) recs why) = why"
        with e show ?thesis by (intro short[of extra]) (simp_all add: g cp)
      next
        assume "fst (category_fallback iter E a k (categories p) recs why) = slice_to k (recs @ extra) \<and>
           k \<le> int (length (recs @ extra)) \<and>
           (\<exists>c\<in>set (categories p).
              snd (category_fallback iter E a k (categories p) recs why) = ''similar products in '' @ c)"
        then obtain c where "c \<in> set (categories p)"
          "fst (category_fallback iter E a k (categories p) recs why) = slice_to k (recs @ extra)"
          "k \<le> int (length (recs @ extra))"
          "snd (category_fallback iter E a k (categories p) recs why) = ''similar products in '' @ c"
          by blast
        with e Some True show ?thesis by (intro filled[of extra p c]) (simp_all add: g cp)
      qed
    qed
  qed
qed

text \<open>
  Claim C8, corrected. In every state of the recommendation engine that \<open>record_view\<close>
  and \<open>add_product_metadata\<close> reach, for every store, focus id and \<open>k\<close>, the list
  \<open>get_recommendations\<close> returns never holds the focus id, whether it comes from the
  co-view matrix, the category fallback or both. The list is not deduplicated.
\<close>

theorem C8_focus_id_never_recommended:
  assumes "rec_reach E"
  shows "a \<notin> set (fst (get_recommendations iter store E a k))"
proof -
  have "a \<notin> fst ` set (view_counter E a)"
    using rec_reach_no_self[OF assms] by (rule no_self_view_counter)
  with coviewed_part_subset[of E a k] have co: "a \<notin> set (fst (coviewed_part E a k))" by blast
  show ?thesis
  proof (cases rule: get_recommendations_cases[of iter store E a k])
    case coviewed
    with co show ?thesis by simp
  next
    case (short extra)
    with co show ?thesis by simp
  next
    case (filled extra c p)
    with co set_slice_to[of k "fst (coviewed_part E a k) @ extra"] show ?thesis by auto
  qed
qed


lemma coviewed_part_nonempty:
  assumes "1 \<le> k" and "view_counter E a \<noteq> []"
  shows "coviewed_part E a k =
           (map fst (take (nat k) (sort_desc snd (view_counter E a))), ''frequently viewed together'')"
    and "fst (coviewed_part E a k) \<noteq> []"
    and "hd (fst (coviewed_part E a k)) = fst (hd (sort_desc snd (view_counter E a)))"
    and "int (length (fst (coviewed_part E a k))) = min k (int (length (view_counter E a)))"
proof -
  from assms(2) obtain c where c: "view_matrix E a = Some c" "view_counter E a = c" "c \<noteq> []"
    by (auto simp: view_counter_def split: option.splits)
  have ne: "sort_desc snd c \<noteq> []" using c(3) by (simp add: sort_desc_eq_Nil)
  with assms(1) have tk: "take (nat k) (sort_desc snd c) \<noteq> []" by auto
  with assms(1) show 1: "coviewed_part E a k =
           (map fst (take (nat k) (sort_desc snd (view_counter E a))), ''frequently viewed together'')"
    by (simp add: coviewed_part_def c most_common_def Let_def)
  from tk show "fst (coviewed_part E a k) \<noteq> []" unfolding 1 by (simp add: c)
  from assms(1) ne show "hd (fst (coviewed_part E a k)) = fst (hd (sort_desc snd (view_counter E a)))"
    unfolding 1 by (simp add: c hd_map tk)
  from assms(1) show "int (length (fst (coviewed_part E a k))) = min k (int (length (view_counter E a)))"
    unfolding 1 by (auto simp: c length_sort_desc min_def)
qed

text \<open>
  Claim C6, corrected. For every state of the co-view matrix, focus id \<open>a\<close>, session
  \<open>S\<close> and \<open>k \<ge> 1\<close>: if after \<open>record_view(a, S)\<close> the focus has a co-viewed partner, the
  list \<open>get_recommendations(a, k)\<close> returns starts with a partner of the highest count,
  and among partners of that count with the one the counter holds first (the partner
  recorded first), not the one of the least id. The reason is
  \<open>frequently viewed together\<close> whenever the focus has at least \<open>k\<close> partners or fewer
  than \<open>k\<close> ids are returned.
\<close>

theorem C6_first_recommendation:
  assumes "1 \<le> k" and "view_counter (record_view a S E) a \<noteq> []"
  shows "\<exists>before x n after.
           view_counter (record_view a S E) a = before @ (x, n) # after
           \<and> (\<forall>m\<in>snd ` set before. m < n) \<and> (\<forall>m\<in>snd ` set after. m \<le> n)
           \<and> fst (get_recommendations iter store (record_view a S E) a k) \<noteq> []
           \<and> hd (fst (get_recommendations iter store (record_view a S E) a k)) = x
           \<and> (k \<le> int (length (view_counter (record_view a S E) a))
                \<or> int (length (fst (get_recommendations iter store (record_view a S E) a k))) < k
              \<longrightarrow> snd (get_recommendations iter store (record_view a S E) a k)
                    = ''frequently viewed together'')"
proof -
  let ?E = "record_view a S E"
  let ?c = "view_counter ?E a"
  let ?R = "get_recommendations iter store ?E a k"
  let ?co = "coviewed_part ?E a k"
  note cp = coviewed_part_nonempty[OF assms]
  from hd_sort_desc[OF assms(2), of snd]
  obtain before xn after where split: "?c = before @ xn # after"
    and h: "hd (sort_desc snd ?c) = xn"
    and b: "\<forall>y\<in>set before. snd y < snd xn" and af: "\<forall>y\<in>set after. snd y \<le> snd xn"
    by blast
  obtain x n where xn: "xn = (x, n)" by (cases xn)
  have hdco: "hd (fst ?co) = x" using cp(3) h by (simp add: xn)
  have sndco: "snd ?co = ''frequently viewed together''" using cp(1) by simp
  have res: "fst ?R \<noteq> [] \<and> hd (fst ?R) = x \<and>
      (k \<le> int (length ?c) \<or> int (length (fst ?R)) < k \<longrightarrow> snd ?R = ''frequently viewed together'')"
  proof (cases rule: get_recommendations_cases[of iter store ?E a k])
    case coviewed
    with cp(2) hdco sndco show ?thesis by simp
  next
    case (short extra)
    with cp(2) hdco sndco show ?thesis by simp
  next
    case (filled extra c p)
    have len: "length (fst ?R) = nat k"
      using filled(4,6) assms(1) by (simp add: slice_to_def)
    have "\<not> k \<le> int (length ?c)" using filled(5) cp(4) by (simp add: min_def split: if_splits)
    moreover have "\<not> int (length (fst ?R)) < k" using len assms(1) by simp
    moreover have "fst ?R \<noteq> []" using len assms(1) by auto
    moreover have "hd (fst ?R) = x"
      using filled(4) cp(2) hdco assms(1) by (simp add: slice_to_def)
    ultimately show ?thesis by blast
  qed
  from b have b': "\<forall>m\<in>snd ` set before. m < n" by (auto simp: xn)
  from af have a': "\<forall>m\<in>snd ` set after. m \<le> n" by (auto simp: xn)
  from split b' a' res show ?thesis
    unfolding xn by (intro exI[of _ before] exI[of _ x] exI[of _ n] exI[of _ after]) simp
qed


text \<open>
  \<open>record_view(''A'', [''C'', ''B''])\<close> gives both partners the count 1;
  \<open>get_recommendations(''A'', 2)\<close> starts with \<open>C\<close>, recorded first, although \<open>B\<close> is the
  smaller id.
\<close>

theorem C6_ties_in_recording_order:
  "get_recommendations sorted_iter Map.empty (record_view ''A'' [''C'', ''B''] rec_init) ''A'' 2
     = ([''C'', ''B''], ''frequently viewed together'')
   \<and> view_counter (record_view ''A'' [''C'', ''B''] rec_init) ''A'' = [(''C'', 1), (''B'', 1)]
   \<and> ''B'' < ''C''"
  by (simp add: get_recommendations_def coviewed_part_def most_common_def record_view_def
        record_view_step_def view_counter_def rec_init_def sort_desc_def)

theorem C6_first_recommendation_witness:
  "(1::int) \<le> 2 \<and> view_counter (record_view ''A'' [''C'', ''B'', ''C''] rec_init) ''A'' \<noteq> []
   \<and> (\<exists>before x n after.
           view_counter (record_view ''A'' [''C'', ''B'', ''C''] rec_init) ''A'' = before @ (x, n) # after
           \<and> (\<forall>m\<in>snd ` set before. m < n) \<and> (\<forall>m\<in>snd ` set after. m \<le> n)
           \<and> fst (get_recommendations sorted_iter Map.empty (record_view ''A'' [''C'', ''B'', ''C''] rec_init) ''A'' 2) \<noteq> []
           \<and> hd (fst (get_recommendations sorted_iter Map.empty (record_view ''A'' [''C'', ''B'', ''C''] rec_init) ''A'' 2)) = x
           \<and> (2 \<le> int (length (view_counter (record_view ''A'' [''C'', ''B'', ''C''] rec_init) ''A''))
                \<or> int (length (fst (get_recommendations sorted_iter Map.empty (record_view ''A'' [''C'', ''B'', ''C''] rec_init) ''A'' 2))) < 2
              \<longrightarrow> snd (get_recommendations sorted_iter Map.empty (record_view ''A'' [''C'', ''B'', ''C''] rec_init) ''A'' 2)
                    = ''frequently viewed together''))"
proof -
  have a: "(1::int) \<le> 2" by simp
  have b: "view_counter (record_view ''A'' [''C'', ''B'', ''C''] rec_init) ''A'' \<noteq> []"
    by (simp add: record_view_def record_view_step_def view_counter_def rec_init_def)
  note c = C6_first_recommendation[OF a b, of sorted_iter Map.empty]
  show ?thesis by (rule conjI[OF a conjI[OF b c]])
qed

lemma books_store: "products_store books = [''A'' \<mapsto> book_a, ''B'' \<mapsto> book_b]"
  by (simp add: books_def index_product_def toy_filter_def engine_init_def Let_def
        book_a_def book_b_def)

lemma lower_books: "lower ''Books'' = ''books''"
  by code_simp

lemma books_engine:
  "recommendation_engine books =
     add_product_metadata ''B'' [''Books''] 1000 (add_product_metadata ''A'' [''Books''] 1000 rec_init)"
  by (simp add: books_def index_product_def toy_filter_def engine_init_def Let_def
        book_a_def book_b_def)

lemma books_members:
  "category_members (recommendation_engine books) ''books'' = {''A'', ''B''}"
  "view_matrix (recommendation_engine books) = Map.empty"
  by (auto simp: books_engine add_product_metadata_def add_category_def category_members_def
        lower_books rec_init_def Let_def)

lemma books_filter: "bloom_filter books = {1}"
  by (simp add: books_def index_product_def toy_filter_def engine_init_def Let_def
        book_a_def book_b_def)

lemma books_similar:
  "filter (\<lambda>p. p \<noteq> ''A'') (sorted_iter {''A'', ''B''}) = [''B'']"
  by (simp add: sorted_iter_def)

text \<open>
  Claim C7 on the code. No view recorded, \<open>A\<close> and \<open>B\<close> in the category \<open>Books\<close>: the
  request for \<open>A\<close> with limit 3 returns \<open>[B]\<close> from the category fallback with the
  empty reason, since the fallback sets the reason only when it fills the list up to
  the limit.
\<close>

theorem C7_fallback_reason_stays_empty:
  "get_recommendations_endpoint toy_filter sorted_iter books ''A'' 3
     = Inr \<lparr>product_ids = [''B''], reason = []\<rparr>"
  by (simp add: get_recommendations_endpoint_def get_recommendations_def coviewed_part_def
        books_store books_members books_filter book_a_def lower_books books_similar Let_def)
     (simp add: toy_filter_def)

lemma books_viewed_parts:
  "products_store books_viewed = products_store books"
  "bloom_filter books_viewed = bloom_filter books"
  "category_members (recommendation_engine books_viewed) ''books'' = {''A'', ''B''}"
  "view_matrix (recommendation_engine books_viewed) ''A'' = Some [(''B'', 1)]"
  using books_members
  by (simp_all add: books_viewed_def record_product_view_def record_view_def record_view_step_def
        view_counter_def category_members_def)

text \<open>
  \<open>B\<close> is a co-viewed partner of \<open>A\<close> and shares its category: the request for \<open>A\<close> with
  limit 5 returns \<open>B\<close> twice.
\<close>

theorem C8_duplicate_recommendation:
  "get_recommendations_endpoint toy_filter sorted_iter books_viewed ''A'' 5
     = Inr \<lparr>product_ids = [''B'', ''B''], reason = ''frequently viewed together''\<rparr>
   \<and> \<not> distinct [''B'', ''B'']"
  by (simp add: get_recommendations_endpoint_def get_recommendations_def coviewed_part_def
        most_common_def sort_desc_def
        books_store books_viewed_parts books_filter book_a_def lower_books books_similar Let_def)
     (simp add: toy_filter_def)

lemma rec_reach_books_viewed: "rec_reach (recommendation_engine books_viewed)"
proof -
  have "recommendation_engine books_viewed = record_view ''A'' [''B''] (recommendation_engine books)"
    by (simp add: books_viewed_def record_product_view_def)
  then show ?thesis unfolding books_engine
    by (simp only:) (intro rec_reach_view rec_reach_metadata rec_reach_init)
qed

theorem C8_focus_id_never_recommended_witness:
  "rec_reach (recommendation_engine books_viewed)
   \<and> ''A'' \<notin> set (fst (get_recommendations sorted_iter (products_store books_viewed)
                        (recommendation_engine books_viewed) ''A'' 5))"
  using C8_focus_id_never_recommended[OF rec_reach_books_viewed, of "''A''" sorted_iter
          "products_store books_viewed" 5]
    rec_reach_books_viewed
  by (rule_tac conjI)

section \<open>The existence filter and the recommendations endpoint\<close>

lemma index_product_filter:
  assumes "no_false_negatives bf" and "bf_contains bf (bloom_filter s) x"
  shows "bf_contains bf (bloom_filter (fst (index_product bf p s))) x"
proof (cases "bf_add bf (bloom_filter s) (product_id p)")
  case (Inl e)
  with assms(2) show ?thesis by (simp add: index_product_def Let_def)
next
  case (Inr b)
  with assms have "bf_contains bf b x" unfolding no_false_negatives_def by blast
  with Inr show ?thesis by (simp add: index_product_def Let_def)
qed

lemma handle_filter:
  assumes "no_false_negatives bf" and "bf_contains bf (bloom_filter s) x" and "r \<noteq> ClearAllData"
  shows "bf_contains bf (bloom_filter (handle bf r s)) x"
proof (cases r)
  case (IndexProduct p)
  with index_product_filter[OF assms(1,2)] show ?thesis by simp
next
  case (RecordView pid session)
  with assms(2) show ?thesis by (simp add: record_product_view_def)
next
  case ClearAllData
  with assms(3) show ?thesis by simp
qed

lemma run_filter:
  assumes "no_false_negatives bf"
  shows "ClearAllData \<notin> set requests \<Longrightarrow> bf_contains bf (bloom_filter s) x \<Longrightarrow>
         bf_contains bf (bloom_filter (run bf requests s)) x"
  unfolding run_def
proof (induction requests arbitrary: s)
  case Nil
  then show ?case by simp
next
  case (Cons r requests)
  from Cons.prems(1) have r: "r \<noteq> ClearAllData" and rest: "ClearAllData \<notin> set requests" by auto
  from Cons.IH[OF rest handle_filter[OF assms Cons.prems(2) r]] show ?case by simp
qed

lemma index_product_registers:
  assumes "no_false_negatives bf" and "index_product bf p s = (s', Inr ack)"
  shows "bf_contains bf (bloom_filter s') (product_id p)"
proof (cases "bf_add bf (bloom_filter s) (product_id p)")
  case (Inl e)
  with assms(2) show ?thesis by (simp add: index_product_def Let_def)
next
  case (Inr b)
  with assms(1) have "bf_contains bf b (product_id p)" unfolding no_false_negatives_def by blast
  moreover from Inr assms(2) have "bloom_filter s' = b" by (auto simp: index_product_def Let_def)
  ultimately show ?thesis by simp
qed

lemma endpoint_not_found:
  "(\<exists>d. get_recommendations_endpoint bf iter s pid limit = Inl (HTTPException 404 d))
     \<longleftrightarrow> \<not> bf_contains bf (bloom_filter s) pid"
  by (auto simp: get_recommendations_endpoint_def split: prod.splits)

text \<open>
  Claim C9, corrected. A recommendations request answers with status 404 exactly when
  the existence filter does not contain the requested id. If the filter has no false
  negatives, then once \<open>index_product\<close> has succeeded for a product, no later request
  for that product's recommendations answers 404, whatever was indexed or viewed in
  between, as long as the data was not cleared in between: \<open>clear_all_data\<close> replaces
  the filter by a new one.
\<close>

theorem C9_not_found_iff_filter_rejects:
  assumes "no_false_negatives bf" and "index_product bf p s1 = (s2, Inr ack)"
    and "ClearAllData \<notin> set requests"
  shows "((\<exists>d. get_recommendations_endpoint bf iter s pid limit = Inl (HTTPException 404 d))
            \<longleftrightarrow> \<not> bf_contains bf (bloom_filter s) pid)
         \<and> (\<forall>d. get_recommendations_endpoint bf iter (run bf requests s2) (product_id p) k
                  \<noteq> Inl (HTTPException 404 d))"
proof
  show "(\<exists>d. get_recommendations_endpoint bf iter s pid limit = Inl (HTTPException 404 d))
            \<longleftrightarrow> \<not> bf_contains bf (bloom_filter s) pid"
    by (rule endpoint_not_found)
next
  have "bf_contains bf (bloom_filter (run bf requests s2)) (product_id p)"
    by (rule run_filter[OF assms(1,3) index_product_registers[OF assms(1,2)]])
  with endpoint_not_found[of bf iter "run bf requests s2" "product_id p" k]
  show "\<forall>d. get_recommendations_endpoint bf iter (run bf requests s2) (product_id p) k
                  \<noteq> Inl (HTTPException 404 d)"
    by blast
qed

lemma no_false_negatives_toy_filter: "no_false_negatives toy_filter"
  by (auto simp: no_false_negatives_def toy_filter_def)

lemma index_book_a:
  "index_product toy_filter book_a engine_init
     = (fst (index_product toy_filter book_a engine_init), Inr (''indexed'', ''A''))"
  by (simp add: index_product_def toy_filter_def Let_def book_a_def)

text \<open>
  \<open>A\<close> is indexed, the data is cleared, and the request for the recommendations of \<open>A\<close>
  answers 404.
\<close>

theorem C9_not_found_after_clear:
  "index_product toy_filter book_a engine_init
     = (fst (index_product toy_filter book_a engine_init), Inr (''indexed'', ''A''))
   \<and> no_false_negatives toy_filter
   \<and> get_recommendations_endpoint toy_filter sorted_iter
         (run toy_filter [ClearAllData] (fst (index_product toy_filter book_a engine_init))) ''A'' 3
       = Inl (HTTPException 404 ''Product not found'')"
proof -
  have "get_recommendations_endpoint toy_filter sorted_iter
         (run toy_filter [ClearAllData] (fst (index_product toy_filter book_a engine_init))) ''A'' 3
       = Inl (HTTPException 404 ''Product not found'')"
    by (simp add: run_def clear_all_data_def get_recommendations_endpoint_def toy_filter_def)
  with index_book_a no_false_negatives_toy_filter show ?thesis by blast
qed

theorem C9_not_found_iff_filter_rejects_witness:
  "no_false_negatives toy_filter
   \<and> index_product toy_filter book_a engine_init
       = (fst (index_product toy_filter book_a engine_init), Inr (''indexed'', ''A''))
   \<and> ClearAllData \<notin> set [IndexProduct book_b, RecordView ''A'' [''B'']]
   \<and> ((\<exists>d. get_recommendations_endpoint toy_filter sorted_iter engine_init ''A'' 3
              = Inl (HTTPException 404 d))
        = (\<not> bf_contains toy_filter (bloom_filter engine_init) ''A''))
   \<and> get_recommendations_endpoint toy_filter sorted_iter engine_init ''A'' 3
       = Inl (HTTPException 404 ''Product not found'')
   \<and> get_recommendations_endpoint toy_filter sorted_iter
         (run toy_filter [IndexProduct book_b, RecordView ''A'' [''B'']]
            (fst (index_product toy_filter book_a engine_init))) ''A'' 3
       \<noteq> Inl (HTTPException 404 ''Product not found'')"
proof -
  have nc: "ClearAllData \<notin> set [IndexProduct book_b, RecordView ''A'' [''B'']]" by simp
  note th = C9_not_found_iff_filter_rejects[OF no_false_negatives_toy_filter index_book_a nc,
      of sorted_iter engine_init "''A''" 3 3]
  have nf: "get_recommendations_endpoint toy_filter sorted_iter engine_init ''A'' 3
       = Inl (HTTPException 404 ''Product not found'')"
    by (simp add: get_recommendations_endpoint_def toy_filter_def engine_init_def)
  from th have "get_recommendations_endpoint toy_filter sorted_iter
         (run toy_filter [IndexProduct book_b, RecordView ''A'' [''B'']]
            (fst (index_product toy_filter book_a engine_init))) ''A'' 3
       \<noteq> Inl (HTTPException 404 ''Product not found'')"
    by (simp add: book_a_def)
  with th nf nc no_false_negatives_toy_filter index_book_a show ?thesis by blast
qed

end
